theory Spec2Isabelle
  imports Complex_Main
begin

section \<open>Timeline and paging engine of the reel maker\<close>

text \<open>
  The development embeds the page-boundary computation, the translation splitter, the
  accumulating text-state timeline with its crossfade frame function
  (\<^verbatim>\<open>core/text_renderer.py\<close>) and the duration-bounded unit sequencer with its audio
  probe (\<^verbatim>\<open>core/video_generator.py\<close>, \<^verbatim>\<open>core/audio_processor.py\<close>).

  Python floats are idealised as \<^typ>\<open>real\<close>: seconds, blend factors and durations are
  exact, so rounding of float arithmetic is not part of the model. Python integers are
  \<^typ>\<open>int\<close>. Exceptions are values of \<open>error + 'a\<close>.
\<close>

subsection \<open>Data model\<close>

datatype error =
    ZeroDivisionError
  | IndexError
  | FetchError string
  | IOError string

text \<open>A timing segment \<^verbatim>\<open>{'word_index': .., 'start_ms': .., 'end_ms': ..}\<close>.\<close>

record segment =
  word_index :: int
  start_ms :: int
  end_ms :: int

text \<open>A page dictionary as \<^verbatim>\<open>compute_page_boundaries\<close> appends it.\<close>

record page =
  page_index :: int
  start_time :: real
  end_time :: real
  word_start_idx :: int
  word_end_idx :: int

subsection \<open>Page boundary computation\<close>

text \<open>
  The inner loop over the segments of one page: \<open>start_time\<close> and \<open>end_time\<close> are the
  running minimum and maximum over the segments whose zero-based word index lies in
  \<open>[w_start, w_end]\<close>.
\<close>

fun scan_page :: "int \<Rightarrow> int \<Rightarrow> segment list \<Rightarrow> real \<times> real \<Rightarrow> real \<times> real" where
  "scan_page w_start w_end [] (st, en) = (st, en)"
| "scan_page w_start w_end (seg # segs) (st, en) =
     (let idx = word_index seg - 1 in
      if w_start \<le> idx \<and> idx \<le> w_end then
        (let seg_start = real_of_int (start_ms seg) / 1000;
             seg_end = real_of_int (end_ms seg) / 1000
         in scan_page w_start w_end segs (min st seg_start, max en seg_end))
      else scan_page w_start w_end segs (st, en))"

text \<open>The body of the outer loop for page number \<open>p\<close>.\<close>

definition page_at :: "segment list \<Rightarrow> int \<Rightarrow> real \<Rightarrow> int \<Rightarrow> int \<Rightarrow> int \<Rightarrow> page" where
  "page_at sorted_segments word_count total_duration page_size num_pages p =
     (let w_start = p * page_size;
          w_end = min ((p + 1) * page_size - 1) (word_count - 1);
          scanned = scan_page w_start w_end sorted_segments (total_duration, 0);
          end_time1 = (if p = num_pages - 1 then total_duration else snd scanned);
          start_time1 = (if p = 0 then 0 else fst scanned)
      in \<lparr>page_index = p, start_time = start_time1, end_time = end_time1,
          word_start_idx = w_start, word_end_idx = w_end\<rparr>)"

text \<open>
  \<^verbatim>\<open>num_pages = max(1, math.ceil(word_count / page_size))\<close>; the true division raises
  for a zero page size. The quotient is taken exactly (Python's float quotient of two
  integers agrees with it below \<open>2^53\<close>).
\<close>

definition compute_page_boundaries ::
  "segment list \<Rightarrow> int \<Rightarrow> real \<Rightarrow> int \<Rightarrow> error + page list" where
  "compute_page_boundaries sorted_segments word_count total_duration page_size =
     (if sorted_segments = [] then Inr []
      else if page_size = 0 then Inl ZeroDivisionError
      else
        (let num_pages = max 1 \<lceil>real_of_int word_count / real_of_int page_size\<rceil>
         in Inr (map (\<lambda>p. page_at sorted_segments word_count total_duration page_size
                            num_pages (int p))
                   [0..<nat num_pages])))"

text \<open>The set of word indices a page shows, and the indices a page list shows.\<close>

definition word_range :: "page \<Rightarrow> int set" where
  "word_range pg = {word_start_idx pg .. word_end_idx pg}"

definition covered_words :: "page list \<Rightarrow> int set" where
  "covered_words pages = (\<Union>pg \<in> set pages. word_range pg)"

text \<open>The loop's test that a (one-based) segment falls into a page's word range.\<close>

definition in_page :: "page \<Rightarrow> segment \<Rightarrow> bool" where
  "in_page pg s \<longleftrightarrow>
     word_start_idx pg \<le> word_index s - 1 \<and> word_index s - 1 \<le> word_end_idx pg"

subsection \<open>Translation splitting\<close>

text \<open>
  A Python string is a list of characters, one \<^typ>\<open>char\<close> per code point (code points
  below 256). \<^verbatim>\<open>str.split()\<close> without arguments cuts at runs of whitespace and returns
  no empty word; the whitespace code points below 256 are 9 to 13, 28 to 32, 133 and 160.
\<close>

definition is_space :: "char \<Rightarrow> bool" where
  "is_space c \<longleftrightarrow>
     (let n = (of_char c :: nat) in (9 \<le> n \<and> n \<le> 13) \<or> (28 \<le> n \<and> n \<le> 32) \<or> n = 133 \<or> n = 160)"

fun split_from :: "string \<Rightarrow> string \<Rightarrow> string list" where
  "split_from cur [] = (if cur = [] then [] else [cur])"
| "split_from cur (c # cs) =
     (if is_space c then (if cur = [] then [] else [cur]) @ split_from [] cs
      else split_from (cur @ [c]) cs)"

definition str_split :: "string \<Rightarrow> string list" where
  "str_split s = split_from [] s"

text \<open>\<^verbatim>\<open>" ".join(ws)\<close>.\<close>

fun str_join :: "string list \<Rightarrow> string" where
  "str_join [] = []"
| "str_join [w] = w"
| "str_join (w # ws) = w @ CHR '' '' # str_join ws"

text \<open>
  Python's \<^verbatim>\<open>round\<close> to an integer: to the nearest, a tie to the even neighbour. It is
  applied to the exact product here.
\<close>

definition py_round :: "real \<Rightarrow> int" where
  "py_round x =
     (let f = \<lfloor>x\<rfloor>; r = x - real_of_int f
      in if r < 1 / 2 then f else if 1 / 2 < r then f + 1
         else if even f then f else f + 1)"

text \<open>
  The loop \<^verbatim>\<open>for i, pb in enumerate(page_boundaries)\<close> with its variables \<open>consumed\<close> and
  \<open>segments\<close>. The slice \<^verbatim>\<open>words[consumed : consumed + count]\<close> has \<open>count \<ge> 1\<close>.
\<close>

fun split_loop ::
  "string list \<Rightarrow> int \<Rightarrow> nat \<Rightarrow> nat \<Rightarrow> page list \<Rightarrow> nat \<Rightarrow> string list \<Rightarrow> string list" where
  "split_loop words total_word_count n_pages i [] consumed segments = segments"
| "split_loop words total_word_count n_pages i (pb # pbs) consumed segments =
     (let page_arabic_words = word_end_idx pb - word_start_idx pb + 1;
          ratio = real_of_int page_arabic_words / real_of_int (max total_word_count 1);
          count = max 1 (py_round (ratio * real (length words)));
          seg_words = (if int i = int n_pages - 1 then drop consumed words
                       else take (nat count) (drop consumed words));
          seg_text = str_join seg_words
      in split_loop words total_word_count n_pages (i + 1) pbs
           (consumed + length seg_words) (segments @ [seg_text]))"

definition split_translation_by_pages :: "string \<Rightarrow> page list \<Rightarrow> int \<Rightarrow> string list" where
  "split_translation_by_pages translation page_boundaries total_word_count =
     (if translation = [] \<or> page_boundaries = [] then
        replicate (max 1 (length page_boundaries)) translation
      else
        (let words = str_split translation;
             n_pages = length page_boundaries
         in if n_pages \<le> 1 then [translation]
            else
              (let segments = split_loop words total_word_count n_pages 0 page_boundaries 0 []
               in segments @ replicate (n_pages - length segments) [])))"

subsection \<open>Accumulating text states\<close>

text \<open>A word entry \<^verbatim>\<open>{'position': .., 'text': ..}\<close> of the word list.\<close>

record word_entry =
  position :: int
  word_text :: string

text \<open>A text state, the tuple \<^verbatim>\<open>(start_s, end_s, page_index, full_string)\<close>.\<close>

record text_state =
  state_start :: real
  state_end :: real
  state_page :: int
  state_text :: string

text \<open>
  \<^verbatim>\<open>word_map = {w["position"]: w["text"] for w in words}\<close>: a later entry replaces an
  earlier one with the same position.
\<close>

definition word_map :: "word_entry list \<Rightarrow> (int \<rightharpoonup> string)" where
  "word_map words = foldl (\<lambda>m w. m(position w \<mapsto> word_text w)) Map.empty words"

text \<open>The slice \<^verbatim>\<open>xs[i:]\<close>; a negative index counts from the end.\<close>

definition slice_from :: "'a list \<Rightarrow> int \<Rightarrow> 'a list" where
  "slice_from xs i =
     (if 0 \<le> i then drop (nat i) xs else drop (nat (int (length xs) + i)) xs)"

text \<open>
  The loop \<^verbatim>\<open>for i, seg in enumerate(sorted_segments)\<close> of
  \<^verbatim>\<open>create_accumulating_text_lines\<close>, with its variables \<open>current_words\<close> and \<open>states\<close>.
  The list argument holds the segments from position \<open>i\<close> on, so that
  \<^verbatim>\<open>i < len(sorted_segments) - 1\<close> says that a segment follows, and
  \<^verbatim>\<open>sorted_segments[i + 1]\<close> is that segment. The floor division raises for a zero
  page size.
\<close>

fun build_states ::
  "int \<Rightarrow> (int \<rightharpoonup> string) \<Rightarrow> real \<Rightarrow> segment list \<Rightarrow> string list \<Rightarrow> text_state list
     \<Rightarrow> error + text_state list" where
  "build_states page_size wm total_duration [] current_words states = Inr states"
| "build_states page_size wm total_duration (seg # rest) current_words states =
     (let word_idx = word_index seg;
          txt = (case wm word_idx of None \<Rightarrow> [] | Some s \<Rightarrow> s)
      in if txt = [] then build_states page_size wm total_duration rest current_words states
         else
           (let current_words' = current_words @ [txt];
                current_word_count = int (length current_words')
            in if page_size = 0 then Inl ZeroDivisionError
               else
                 (let page_index = (current_word_count - 1) div page_size;
                      page_start_idx = page_index * page_size;
                      active_page_words = slice_from current_words' page_start_idx;
                      start_s = real_of_int (start_ms seg) / 1000;
                      end_s = (case rest of [] \<Rightarrow> total_duration
                               | nxt # _ \<Rightarrow> real_of_int (start_ms nxt) / 1000);
                      end_s' = (if end_s - start_s < 5 / 100 then start_s + 5 / 100 else end_s);
                      full_string = str_join active_page_words
                  in build_states page_size wm total_duration rest current_words'
                       (states @ [\<lparr>state_start = start_s, state_end = end_s',
                                   state_page = page_index, state_text = full_string\<rparr>]))))"

text \<open>
  The state list of \<^verbatim>\<open>create_accumulating_text_lines\<close>: the segments are sorted by
  \<open>start_ms\<close> (Python's \<^verbatim>\<open>sorted\<close> is stable, as \<^const>\<open>sort_key\<close> is) and walked once.
\<close>

definition text_states ::
  "segment list \<Rightarrow> word_entry list \<Rightarrow> real \<Rightarrow> int \<Rightarrow> error + text_state list" where
  "text_states segments words total_duration page_size =
     build_states page_size (word_map words) total_duration (sort_key start_ms segments) [] []"

subsection \<open>State lookup and crossfade\<close>

text \<open>
  An RGBA buffer the frame function can return: the transparent \<^verbatim>\<open>empty_frame\<close> or the
  pre-rendered buffer \<^verbatim>\<open>rendered_frames[text_str]\<close> of a display string.
\<close>

datatype frame = Empty_frame | Rendered string

definition contains_time :: "text_state \<Rightarrow> real \<Rightarrow> bool" where
  "contains_time s t \<longleftrightarrow> state_start s \<le> t \<and> t < state_end s"

text \<open>
  The \<^verbatim>\<open>for\<close> loop of \<^verbatim>\<open>_get_state_at\<close>, which leaves at the first state whose interval
  holds \<open>t\<close>; \<open>None\<close> says that the loop ended without \<^verbatim>\<open>break\<close>, so that its
  \<^verbatim>\<open>else\<close> branch runs.
\<close>

fun first_match :: "text_state list \<Rightarrow> real \<Rightarrow> frame option" where
  "first_match [] t = None"
| "first_match (s # rest) t =
     (if state_start s \<le> t \<and> t < state_end s then Some (Rendered (state_text s))
      else first_match rest t)"

definition get_state_at :: "text_state list \<Rightarrow> real \<Rightarrow> frame" where
  "get_state_at states t =
     (case first_match states t of
        Some f \<Rightarrow> f
      | None \<Rightarrow>
          if states \<noteq> [] \<and> state_start (last states) \<le> t
          then Rendered (state_text (last states)) else Empty_frame)"

text \<open>The times at which the page index changes between consecutive states.\<close>

fun page_transitions :: "text_state list \<Rightarrow> real list" where
  "page_transitions (a # b # rest) =
     (if state_page b \<noteq> state_page a then [state_start b] else [])
       @ page_transitions (b # rest)"
| "page_transitions _ = []"

text \<open>
  The inner loop of \<^verbatim>\<open>make_frame\<close> that picks the outgoing and the incoming buffer: it
  has no \<^verbatim>\<open>break\<close>, so the last state whose interval holds the probe time wins.
\<close>

fun crossfade_frames :: "text_state list \<Rightarrow> real \<Rightarrow> frame \<times> frame \<Rightarrow> frame \<times> frame" where
  "crossfade_frames [] trans_t (out_frame, in_frame) = (out_frame, in_frame)"
| "crossfade_frames (s # rest) trans_t (out_frame, in_frame) =
     crossfade_frames rest trans_t
       (if state_start s \<le> trans_t - 1 / 100 \<and> trans_t - 1 / 100 < state_end s
        then Rendered (state_text s) else out_frame,
        if state_start s \<le> trans_t + 1 / 100 \<and> trans_t + 1 / 100 < state_end s
        then Rendered (state_text s) else in_frame)"

text \<open>
  What \<^verbatim>\<open>make_frame\<close> (colour channels) and \<^verbatim>\<open>make_mask\<close> (alpha channel) return for a
  time \<open>t\<close>: one buffer unmodified, or two buffers mixed with a blend factor.
\<close>

datatype frame_output = Plain frame | Blended frame frame real

fun make_frame_scan :: "text_state list \<Rightarrow> real \<Rightarrow> real list \<Rightarrow> real \<Rightarrow> error + frame_output" where
  "make_frame_scan states crossfade_dur [] t = Inr (Plain (get_state_at states t))"
| "make_frame_scan states crossfade_dur (trans_t # rest) t =
     (if trans_t - crossfade_dur / 2 \<le> t \<and> t \<le> trans_t + crossfade_dur / 2 then
        (let frames = crossfade_frames states trans_t (Empty_frame, Empty_frame)
         in if crossfade_dur = 0 then Inl ZeroDivisionError
            else
              (let blend = (t - (trans_t - crossfade_dur / 2)) / crossfade_dur;
                   blend' = max 0 (min 1 blend)
               in Inr (Blended (fst frames) (snd frames) blend')))
      else make_frame_scan states crossfade_dur rest t)"

definition make_frame :: "text_state list \<Rightarrow> real \<Rightarrow> real \<Rightarrow> error + frame_output" where
  "make_frame states crossfade_dur t =
     make_frame_scan states crossfade_dur (page_transitions states) t"

text \<open>
  One channel value of the mix \<^verbatim>\<open>(out * (1 - blend) + in * blend).astype(np.uint8)\<close> of two
  channel values between 0 and 255.
\<close>

definition blend_value :: "real \<Rightarrow> nat \<Rightarrow> nat \<Rightarrow> nat" where
  "blend_value blend out_v in_v = nat \<lfloor>real out_v * (1 - blend) + real in_v * blend\<rfloor>"

text \<open>The window around a transition, and the blend factor \<open>clamp((t - (T - d/2)) / d, 0, 1)\<close>.\<close>

definition in_window :: "real \<Rightarrow> real \<Rightarrow> real \<Rightarrow> bool" where
  "in_window T d t \<longleftrightarrow> T - d / 2 \<le> t \<and> t \<le> T + d / 2"

definition blend_formula :: "real \<Rightarrow> real \<Rightarrow> real \<Rightarrow> real" where
  "blend_formula T d t = max 0 (min 1 ((t - (T - d / 2)) / d))"

text \<open>The buffer of the last state in list order whose interval holds \<open>t\<close>.\<close>

definition last_active :: "text_state list \<Rightarrow> real \<Rightarrow> frame" where
  "last_active states t =
     (case filter (\<lambda>s. contains_time s t) states of
        [] \<Rightarrow> Empty_frame
      | x # xs \<Rightarrow> Rendered (state_text (last (x # xs))))"

text \<open>
  The closed form of the accumulation loop, used as its invariant: the state number \<open>i\<close>
  (from zero) is on page \<open>i div page_size\<close> and shows the words of that page up to and
  including word \<open>i\<close>.
\<close>

definition states_inv :: "int \<Rightarrow> string list \<Rightarrow> text_state list \<Rightarrow> bool" where
  "states_inv ps cur sts \<longleftrightarrow>
     length sts = length cur \<and> (\<forall>w \<in> set cur. w \<noteq> []) \<and>
     (\<forall>i < length sts.
        state_page (sts ! i) = int i div ps \<and>
        state_text (sts ! i) = str_join (drop (nat (int i div ps * ps)) (take (Suc i) cur)))"

subsection \<open>Audio duration probe\<close>

text \<open>
  \<^verbatim>\<open>try: ... except Exception as e: ...\<close>: an exception of the body is handed to the
  handler. The values of \<^typ>\<open>error\<close> stand for the subclasses of \<^verbatim>\<open>Exception\<close>.
\<close>

definition try_except :: "error + 'a \<Rightarrow> (error \<Rightarrow> error + 'a) \<Rightarrow> error + 'a" where
  "try_except body handler = (case body of Inl e \<Rightarrow> handler e | Inr v \<Rightarrow> Inr v)"

text \<open>
  \<^verbatim>\<open>get_audio_duration_moviepy\<close> of the video generator. The library call
  \<^verbatim>\<open>AudioFileClip(str(audio_path))\<close> is a parameter: it raises, or gives a clip of which
  only the duration is read.
\<close>

definition get_audio_duration_moviepy :: "(string \<Rightarrow> error + real) \<Rightarrow> string \<Rightarrow> error + real" where
  "get_audio_duration_moviepy audio_file_clip audio_path =
     try_except
       (case audio_file_clip audio_path of
          Inl e \<Rightarrow> Inl e
        | Inr clip_duration \<Rightarrow> Inr clip_duration)
       (\<lambda>e. Inr 5)"

text \<open>
  \<^verbatim>\<open>get_audio_duration\<close> of the audio processor. \<^verbatim>\<open>AudioSegment.from_file\<close> is a
  parameter: it raises, or gives a segment of which only the length in milliseconds is
  read.
\<close>

definition get_audio_duration :: "(string \<Rightarrow> error + int) \<Rightarrow> string \<Rightarrow> error + real" where
  "get_audio_duration from_file audio_path =
     try_except
       (case from_file audio_path of
          Inl e \<Rightarrow> Inl e
        | Inr audio_len \<Rightarrow> Inr (real_of_int audio_len / 1000))
       (\<lambda>e. Inr 5)"

subsection \<open>Unit sequencing\<close>

text \<open>
  The fields of the dictionary returned by \<^verbatim>\<open>fetch_single_ayah\<close> that the sequencing
  steps of \<^verbatim>\<open>generate_reel\<close> read.
\<close>

record ayah_data =
  ayah :: int
  audio_duration :: real
  segment_end :: real

text \<open>
  Step 1 of \<^verbatim>\<open>generate_reel\<close>: the loop \<^verbatim>\<open>while current_ayah <= end_ayah\<close>. The call
  \<^verbatim>\<open>fetch_single_ayah(surah, current_ayah, .., current_time, style.ayah_padding)\<close> is the
  parameter \<open>fetch\<close>, applied to the ayah number and the current time; it may raise. The
  result is the state \<open>(ayah_data, current_time, current_ayah)\<close> after the loop.
\<close>

function accumulate ::
  "(int \<Rightarrow> real \<Rightarrow> error + ayah_data) \<Rightarrow> real \<Rightarrow> int \<Rightarrow> ayah_data list \<Rightarrow> real \<Rightarrow> int
     \<Rightarrow> error + (ayah_data list \<times> real \<times> int)" where
  "accumulate fetch max_content_duration end_ayah ayah_list current_time current_ayah =
     (if current_ayah \<le> end_ayah then
        (case fetch current_ayah current_time of
           Inl e \<Rightarrow> Inl e
         | Inr data \<Rightarrow>
             (let projected_duration = segment_end data + 1 / 2
              in if ayah_list \<noteq> [] \<and> max_content_duration < projected_duration
                 then Inr (ayah_list, current_time, current_ayah)
                 else accumulate fetch max_content_duration end_ayah (ayah_list @ [data])
                        (segment_end data) (current_ayah + 1)))
      else Inr (ayah_list, current_time, current_ayah))"
  by pat_completeness auto
termination
  by (relation "measure (\<lambda>(fetch, max_content_duration, end_ayah, ayah_list, current_time,
        current_ayah). nat (end_ayah + 1 - current_ayah))") auto

declare accumulate.simps [simp del]

text \<open>
  Step 2: the loop that extends a reel below the minimum duration. The result is
  \<open>(ayah_data, total_duration, end_ayah)\<close> after the loop.
\<close>

function extend ::
  "(int \<Rightarrow> real \<Rightarrow> error + ayah_data) \<Rightarrow> real \<Rightarrow> real \<Rightarrow> int \<Rightarrow> ayah_data list \<Rightarrow> real \<Rightarrow> real
     \<Rightarrow> int \<Rightarrow> int \<Rightarrow> error + (ayah_data list \<times> real \<times> int)" where
  "extend fetch min_duration max_content_duration max_ayah ayah_list current_time
       total_duration current_ayah end_ayah =
     (if total_duration < min_duration \<and> current_ayah \<le> max_ayah \<and>
         total_duration < max_content_duration then
        (case fetch current_ayah current_time of
           Inl e \<Rightarrow> Inl e
         | Inr data \<Rightarrow>
             (let projected_duration = segment_end data + 1 / 2
              in if max_content_duration < projected_duration
                 then Inr (ayah_list, total_duration, end_ayah)
                 else extend fetch min_duration max_content_duration max_ayah
                        (ayah_list @ [data]) (segment_end data) (segment_end data + 1 / 2)
                        (current_ayah + 1) (current_ayah + 1 - 1)))
      else Inr (ayah_list, total_duration, end_ayah))"
  by pat_completeness auto
termination
  by (relation "measure (\<lambda>(fetch, min_duration, max_content_duration, max_ayah, ayah_list,
        current_time, total_duration, current_ayah, end_ayah).
          nat (max_ayah + 1 - current_ayah))") auto

declare extend.simps [simp del]

text \<open>
  Steps 1 and 2 of \<^verbatim>\<open>generate_reel\<close> and the hard cap that follows them, from the
  validated verse range to the unit list, the \<open>total_duration\<close> that is given to
  \<^verbatim>\<open>final_video.set_duration\<close>, and the last ayah. The reel maximum less the intro
  time, the reel minimum and the verse count of the surah are parameters.
  \<^verbatim>\<open>ayah_data[-1]\<close> raises for an empty list.
\<close>

definition generate_reel_timeline ::
  "(int \<Rightarrow> real \<Rightarrow> error + ayah_data) \<Rightarrow> real \<Rightarrow> real \<Rightarrow> int \<Rightarrow> int \<Rightarrow> int
     \<Rightarrow> error + (ayah_data list \<times> real \<times> int)" where
  "generate_reel_timeline fetch min_duration max_content_duration max_ayah start_ayah end_ayah =
     (case accumulate fetch max_content_duration end_ayah [] (1 / 10) start_ayah of
        Inl e \<Rightarrow> Inl e
      | Inr (ayah_list, current_time, current_ayah) \<Rightarrow>
          (let total_duration = current_time + 1 / 2
           in if ayah_list = [] then Inl IndexError
              else
                (case extend fetch min_duration max_content_duration max_ayah ayah_list
                        current_time total_duration current_ayah (ayah (last ayah_list)) of
                   Inl e \<Rightarrow> Inl e
                 | Inr (ayah_list', total_duration', end_ayah') \<Rightarrow>
                     Inr (ayah_list',
                          (if max_content_duration < total_duration'
                           then max_content_duration else total_duration'),
                          end_ayah'))))"

section \<open>Properties\<close>

subsection \<open>Page boundaries\<close>

lemma compute_page_boundaries_Inr:
  assumes "compute_page_boundaries segs w d ps = Inr pages" and "pages \<noteq> []"
  obtains n where "1 \<le> n" "n = max 1 \<lceil>real_of_int w / real_of_int ps\<rceil>" "ps \<noteq> 0" "segs \<noteq> []"
    "pages = map (\<lambda>p. page_at segs w d ps n (int p)) [0..<nat n]"
  using assms unfolding compute_page_boundaries_def Let_def
  by (auto split: if_splits)

text \<open>
  C4. Whenever \<^verbatim>\<open>compute_page_boundaries\<close> returns a non-empty page list, the first
  page starts at \<open>0.0\<close> and the last page ends at the unit's total duration, whatever the
  word timestamps are.
\<close>

theorem boundary_pinning:
  assumes "compute_page_boundaries segs w d ps = Inr pages" and "pages \<noteq> []"
  shows "start_time (hd pages) = 0 \<and> end_time (last pages) = d"
proof -
  from assms obtain n where n: "1 \<le> n"
    and pages: "pages = map (\<lambda>p. page_at segs w d ps n (int p)) [0..<nat n]"
    by (rule compute_page_boundaries_Inr)
  from n have ne: "[0..<nat n] \<noteq> []" by simp
  have h: "hd [0..<nat n] = 0" using n by (simp add: hd_upt)
  have l: "int (last [0..<nat n]) = n - 1" using n by (simp add: last_upt)
  have "hd pages = page_at segs w d ps n 0"
    using ne h by (simp add: pages hd_map)
  moreover have "last pages = page_at segs w d ps n (n - 1)"
    using ne l by (simp add: pages last_map)
  ultimately show ?thesis by (simp add: page_at_def Let_def)
qed

lemma page_at_sel:
  "page_index (page_at segs w d ps n p) = p"
  "word_start_idx (page_at segs w d ps n p) = p * ps"
  "word_end_idx (page_at segs w d ps n p) = min ((p + 1) * ps - 1) (w - 1)"
  by (simp_all add: page_at_def Let_def)

lemma num_pages_upper:
  assumes "1 \<le> ps" and "n = max 1 \<lceil>real_of_int w / real_of_int ps\<rceil>"
  shows "w \<le> n * ps"
proof -
  have "real_of_int w / real_of_int ps \<le> real_of_int \<lceil>real_of_int w / real_of_int ps\<rceil>"
    by (rule le_of_int_ceiling)
  also have "\<dots> \<le> real_of_int n" using assms(2) by simp
  finally have "real_of_int w \<le> real_of_int n * real_of_int ps"
    using assms(1) by (simp add: pos_divide_le_eq)
  then have "real_of_int w \<le> real_of_int (n * ps)" by simp
  then show ?thesis by (simp only: of_int_le_iff)
qed

lemma num_pages_lower:
  assumes "1 \<le> ps" and "n = max 1 \<lceil>real_of_int w / real_of_int ps\<rceil>"
    and "0 \<le> i" and "i + 1 < n"
  shows "(i + 1) * ps < w"
proof -
  from assms(3,4) have "1 < n" by simp
  with assms(2) have n: "n = \<lceil>real_of_int w / real_of_int ps\<rceil>" by (simp add: max_def split: if_splits)
  have "i + 1 < \<lceil>real_of_int w / real_of_int ps\<rceil>" using assms(4) n by simp
  then have "real_of_int (i + 1) < real_of_int w / real_of_int ps"
    by (simp only: less_ceiling_iff)
  then have "real_of_int (i + 1) * real_of_int ps < real_of_int w"
    using assms(1) by (simp add: pos_less_divide_eq)
  then have "real_of_int ((i + 1) * ps) < real_of_int w" by simp
  then show ?thesis by (simp only: of_int_less_iff)
qed

text \<open>
  C1 (as amended). For every word count \<open>w\<close>, page size \<open>p \<ge> 1\<close> and \<^emph>\<open>non-empty\<close> list of
  timing segments, \<^verbatim>\<open>compute_page_boundaries\<close> returns a non-empty page list whose
  \<open>page_index\<close> values are \<open>0, 1, 2, \<dots>\<close> in order, whose word ranges
  \<open>[word_start_idx, word_end_idx]\<close> start at \<open>0\<close>, are contiguous (each page starts one
  past the end of its predecessor), are pairwise disjoint and jointly cover exactly
  \<open>[0, w)\<close>. For an empty segment list the function returns no page at all.
\<close>

theorem page_contiguity:
  assumes "segs \<noteq> []" and "1 \<le> ps"
  shows "\<exists>pages. compute_page_boundaries segs w d ps = Inr pages \<and> pages \<noteq> [] \<and>
     (\<forall>i < length pages. page_index (pages ! i) = int i) \<and>
     word_start_idx (hd pages) = 0 \<and>
     (\<forall>i. Suc i < length pages \<longrightarrow>
        word_start_idx (pages ! Suc i) = word_end_idx (pages ! i) + 1) \<and>
     (\<forall>i j. i < j \<longrightarrow> j < length pages \<longrightarrow>
        word_range (pages ! i) \<inter> word_range (pages ! j) = {}) \<and>
     covered_words pages = {0..<w}"
proof -
  define n where "n = max 1 \<lceil>real_of_int w / real_of_int ps\<rceil>"
  define pages where "pages = map (\<lambda>p. page_at segs w d ps n (int p)) [0..<nat n]"
  have n1: "1 \<le> n" by (simp add: n_def)
  have res: "compute_page_boundaries segs w d ps = Inr pages"
    using assms by (simp add: compute_page_boundaries_def pages_def n_def Let_def)
  have len: "length pages = nat n" by (simp add: pages_def)
  have nth: "pages ! i = page_at segs w d ps n (int i)" if "i < nat n" for i
    using that by (simp add: pages_def)
  have ne: "pages \<noteq> []" using n1 len by auto
  have idx: "\<forall>i < length pages. page_index (pages ! i) = int i"
    by (simp add: len nth page_at_sel)
  have first: "word_start_idx (hd pages) = 0"
    using ne nth[of 0] n1 by (simp add: hd_conv_nth page_at_sel)
  have contig: "\<forall>i. Suc i < length pages \<longrightarrow>
        word_start_idx (pages ! Suc i) = word_end_idx (pages ! i) + 1"
  proof (intro allI impI)
    fix i assume a: "Suc i < length pages"
    then have "int i + 1 < n" by (simp add: len)
    then have "(int i + 1) * ps < w"
      using num_pages_lower[OF assms(2) n_def, of "int i"] by simp
    then have "min ((int i + 1) * ps - 1) (w - 1) = (int i + 1) * ps - 1" by simp
    then show "word_start_idx (pages ! Suc i) = word_end_idx (pages ! i) + 1"
      using a by (simp add: len nth page_at_sel)
  qed
  have disj: "\<forall>i j. i < j \<longrightarrow> j < length pages \<longrightarrow>
        word_range (pages ! i) \<inter> word_range (pages ! j) = {}"
  proof (intro allI impI)
    fix i j :: nat assume ij: "i < j" and j: "j < length pages"
    have "int i + 1 \<le> int j" using ij by simp
    then have "(int i + 1) * ps \<le> int j * ps"
      using assms(2) by (intro mult_right_mono) simp_all
    then have "min ((int i + 1) * ps - 1) (w - 1) < int j * ps" by simp
    then show "word_range (pages ! i) \<inter> word_range (pages ! j) = {}"
      using ij j by (auto simp add: len nth page_at_sel word_range_def)
  qed
  have cover: "covered_words pages = {0..<w}"
    unfolding covered_words_def
  proof (intro set_eqI iffI)
    fix x assume "x \<in> (\<Union>pg \<in> set pages. word_range pg)"
    then obtain k where k: "k < nat n" and x: "x \<in> word_range (page_at segs w d ps n (int k))"
      by (auto simp add: pages_def)
    have "0 \<le> int k * ps" using assms(2) by simp
    with x show "x \<in> {0..<w}" by (simp add: word_range_def page_at_sel)
  next
    fix x assume "x \<in> {0..<w}"
    then have x0: "0 \<le> x" and xw: "x < w" by simp_all
    define k where "k = nat (x div ps)"
    have ps0: "0 < ps" using assms(2) by simp
    have q0: "0 \<le> x div ps" using x0 ps0 by (simp add: pos_imp_zdiv_nonneg_iff)
    have ik: "int k = x div ps" using q0 by (simp add: k_def)
    have eq: "x div ps * ps + x mod ps = x" by (rule div_mult_mod_eq)
    have m0: "0 \<le> x mod ps" using ps0 by (rule pos_mod_sign)
    have m1: "x mod ps < ps" using ps0 by (rule pos_mod_bound)
    have lo: "x div ps * ps \<le> x" using eq m0 by linarith
    have "(x div ps + 1) * ps = x div ps * ps + ps" by (simp add: algebra_simps)
    then have hi: "x < (x div ps + 1) * ps" using eq m1 by linarith
    have "w \<le> n * ps" by (rule num_pages_upper[OF assms(2) n_def])
    with xw have "x < n * ps" by simp
    have "x div ps < n"
    proof (rule ccontr)
      assume "\<not> x div ps < n"
      then have "n \<le> x div ps" by simp
      then have "n * ps \<le> x div ps * ps"
        using ps0 by (intro mult_right_mono) simp_all
      with lo \<open>x < n * ps\<close> show False by linarith
    qed
    then have kn: "k < nat n" using q0 by (simp add: k_def)
    have "x \<in> word_range (page_at segs w d ps n (int k))"
      using lo hi xw by (simp add: word_range_def page_at_sel ik)
    then show "x \<in> (\<Union>pg \<in> set pages. word_range pg)"
      using kn by (auto simp add: pages_def)
  qed
  show ?thesis using res ne idx first contig disj cover by blast
qed


text \<open>
  The claim as stated, for every sorted segment list, fails at the empty list: the guard
  at the top of the function returns no pages, which cover nothing of \<open>[0, 5)\<close>.
\<close>

theorem page_contiguity_counterexample:
  "compute_page_boundaries [] 5 13 12 = Inr [] \<and> covered_words [] \<noteq> {0..<5}"
  by (simp add: compute_page_boundaries_def covered_words_def)

text \<open>
  A unit of 27 words, 12 words per page and 13 seconds, with timing for the first word
  only.
\<close>

lemma example_pages:
  "compute_page_boundaries [\<lparr>word_index = 1, start_ms = 0, end_ms = 400\<rparr>] 27 13 12 = Inr
  [\<lparr>page_index = 0, start_time = 0, end_time = 2/5, word_start_idx = 0, word_end_idx = 11\<rparr>,
   \<lparr>page_index = 1, start_time = 13, end_time = 0, word_start_idx = 12, word_end_idx = 23\<rparr>,
   \<lparr>page_index = 2, start_time = 13, end_time = 13, word_start_idx = 24, word_end_idx = 26\<rparr>]"
  by (simp add: compute_page_boundaries_def page_at_def Let_def upt_rec)

theorem page_contiguity_witness:
  "covered_words
  [\<lparr>page_index = 0, start_time = 0, end_time = 2/5, word_start_idx = 0, word_end_idx = 11\<rparr>,
   \<lparr>page_index = 1, start_time = 13, end_time = 0, word_start_idx = 12, word_end_idx = 23\<rparr>,
   \<lparr>page_index = 2, start_time = 13, end_time = 13, word_start_idx = 24, word_end_idx = 26\<rparr>]
   = {0..<27}"
  using page_contiguity [of "[\<lparr>word_index = 1, start_ms = 0, end_ms = 400\<rparr>]" 12 27 13]
  by (simp add: example_pages)

theorem boundary_pinning_witness:
  "start_time (hd
  [\<lparr>page_index = 0, start_time = 0, end_time = 2/5, word_start_idx = 0, word_end_idx = 11\<rparr>,
   \<lparr>page_index = 1, start_time = 13, end_time = 0, word_start_idx = 12, word_end_idx = 23\<rparr>,
   \<lparr>page_index = 2, start_time = 13, end_time = 13, word_start_idx = 24, word_end_idx = 26\<rparr>]) = 0
   \<and> end_time (last
  [\<lparr>page_index = 0, start_time = 0, end_time = 2/5, word_start_idx = 0, word_end_idx = 11\<rparr>,
   \<lparr>page_index = 1, start_time = 13, end_time = 0, word_start_idx = 12, word_end_idx = 23\<rparr>,
   \<lparr>page_index = 2, start_time = 13, end_time = 13, word_start_idx = 24, word_end_idx = 26\<rparr>]) = 13"
  by (rule boundary_pinning [OF example_pages]) simp

lemma scan_page_bounds:
  "scan_page a b segs (st, en) = (st', en') \<Longrightarrow>
     st' \<le> st \<and> en \<le> en' \<and>
     (\<forall>s \<in> set segs. a \<le> word_index s - 1 \<and> word_index s - 1 \<le> b \<longrightarrow>
        st' \<le> real_of_int (start_ms s) / 1000 \<and> real_of_int (end_ms s) / 1000 \<le> en')"
proof (induction segs arbitrary: st en)
  case Nil
  then show ?case by simp
next
  case (Cons seg segs)
  show ?case
  proof (cases "a \<le> word_index seg - 1 \<and> word_index seg - 1 \<le> b")
    case True
    with Cons.prems have "scan_page a b segs
        (min st (real_of_int (start_ms seg) / 1000), max en (real_of_int (end_ms seg) / 1000))
        = (st', en')"
      by (simp add: Let_def)
    from Cons.IH[OF this] show ?thesis by auto
  next
    case False
    with Cons.prems have "scan_page a b segs (st, en) = (st', en')"
      by (auto simp add: Let_def split: if_splits)
    from Cons.IH[OF this] False show ?thesis by auto
  qed
qed

text \<open>
  C5 (as amended). Every page returned by \<^verbatim>\<open>compute_page_boundaries\<close> into whose word
  range at least one timing segment falls satisfies \<open>end_time > start_time\<close>, provided
  every segment has \<open>0 \<le> start_ms < end_ms\<close> and starts before the unit's total
  duration. A page into whose range no segment falls is not covered: the scan leaves it
  with the fallback values.
\<close>

theorem page_window_positive:
  assumes res: "compute_page_boundaries segs w d ps = Inr pages"
    and pg: "pg \<in> set pages"
    and wf: "\<forall>s \<in> set segs. 0 \<le> start_ms s \<and> start_ms s < end_ms s \<and>
                real_of_int (start_ms s) / 1000 < d"
    and occ: "\<exists>s \<in> set segs. in_page pg s"
  shows "start_time pg < end_time pg"
proof -
  from pg have "pages \<noteq> []" by auto
  with res obtain n where
    pages: "pages = map (\<lambda>p. page_at segs w d ps n (int p)) [0..<nat n]"
    by (rule compute_page_boundaries_Inr)
  with pg obtain k where pgk: "pg = page_at segs w d ps n (int k)" by auto
  define a where "a = int k * ps"
  define b where "b = min ((int k + 1) * ps - 1) (w - 1)"
  obtain st en where sc: "scan_page a b segs (d, 0) = (st, en)" by (cases "scan_page a b segs (d, 0)")
  from occ obtain s where s: "s \<in> set segs" and "in_page pg s" by blast
  then have inr: "a \<le> word_index s - 1 \<and> word_index s - 1 \<le> b"
    by (simp add: in_page_def pgk page_at_def Let_def a_def b_def)
  from scan_page_bounds[OF sc] s inr
  have b1: "st \<le> d" and b2: "0 \<le> en"
    and b3: "st \<le> real_of_int (start_ms s) / 1000"
    and b4: "real_of_int (end_ms s) / 1000 \<le> en"
    by auto
  from wf s have w1: "0 \<le> real_of_int (start_ms s) / 1000"
    and w2: "real_of_int (start_ms s) / 1000 < real_of_int (end_ms s) / 1000"
    and w3: "real_of_int (start_ms s) / 1000 < d"
    by auto
  have st: "start_time pg = (if int k = 0 then 0 else st)"
    using sc by (simp add: pgk page_at_def Let_def a_def[symmetric] b_def[symmetric])
  have en: "end_time pg = (if int k = n - 1 then d else en)"
    using sc by (simp add: pgk page_at_def Let_def a_def[symmetric] b_def[symmetric])
  show ?thesis
    unfolding st en using b1 b2 b3 b4 w1 w2 w3 by (auto split: if_splits)
qed

text \<open>
  The claim as stated fails for a middle page without timing: with one timed word out of
  27, page 1 keeps \<open>start_time = total_duration = 13\<close> and \<open>end_time = 0\<close>.
\<close>

theorem page_window_positive_counterexample:
  "compute_page_boundaries [\<lparr>word_index = 1, start_ms = 0, end_ms = 400\<rparr>] 27 13 12 = Inr
  [\<lparr>page_index = 0, start_time = 0, end_time = 2/5, word_start_idx = 0, word_end_idx = 11\<rparr>,
   \<lparr>page_index = 1, start_time = 13, end_time = 0, word_start_idx = 12, word_end_idx = 23\<rparr>,
   \<lparr>page_index = 2, start_time = 13, end_time = 13, word_start_idx = 24, word_end_idx = 26\<rparr>]
  \<and> \<not> end_time \<lparr>page_index = 1, start_time = 13, end_time = 0, word_start_idx = 12, word_end_idx = 23\<rparr>
      > start_time \<lparr>page_index = 1, start_time = 13, end_time = 0, word_start_idx = 12, word_end_idx = 23\<rparr>"
  by (simp add: compute_page_boundaries_def page_at_def Let_def upt_rec)

theorem page_window_positive_witness:
  "start_time \<lparr>page_index = 0, start_time = 0, end_time = 2/5, word_start_idx = 0, word_end_idx = 11\<rparr>
   < end_time \<lparr>page_index = 0, start_time = 0, end_time = 2/5, word_start_idx = 0, word_end_idx = 11\<rparr>"
  by (rule page_window_positive [OF example_pages]) (simp_all add: in_page_def)

subsection \<open>Translation splitting\<close>

lemma length_split_loop:
  "length (split_loop words twc n i pbs consumed segs) = length segs + length pbs"
  by (induction pbs arbitrary: i consumed segs) (simp_all add: Let_def)

text \<open>
  C8 (as amended). For every translation string and every page list,
  \<^verbatim>\<open>split_translation_by_pages\<close> returns a list of length \<open>max(1, len(pages))\<close>: the number
  of pages when there is at least one page, and one for the empty page list. When the
  translation is empty or the page list is empty the result is the translation repeated
  \<open>max(1, len(pages))\<close> times, and for exactly one page it is \<open>[translation]\<close>.
\<close>

theorem split_translation_length:
  "length (split_translation_by_pages t pbs twc) = max 1 (length pbs) \<and>
   (t = [] \<or> pbs = [] \<longrightarrow>
      split_translation_by_pages t pbs twc = replicate (max 1 (length pbs)) t) \<and>
   (length pbs = 1 \<longrightarrow> split_translation_by_pages t pbs twc = [t])"
  by (auto simp add: split_translation_by_pages_def Let_def length_split_loop)

text \<open>
  The claim as stated, that the length always equals the number of pages, fails for the
  empty page list: the result has one element.
\<close>

theorem split_translation_length_counterexample:
  "length (split_translation_by_pages ''In the name'' [] 3) \<noteq> length ([] :: page list)"
  by (simp add: split_translation_by_pages_def)

theorem split_translation_length_witness:
  "length (split_translation_by_pages ''In the name'' [] 3) = 1 \<and>
   split_translation_by_pages ''In the name'' [] 3 = [''In the name'']"
  using split_translation_length [of "''In the name''" "[]" 3] by simp

lemma take_drop_rest: "take c xs @ drop (length (take c xs)) xs = xs"
  by (cases "c \<le> length xs") (simp_all add: min_def)

lemma split_loop_slices:
  assumes "pbs \<noteq> []" and "i + length pbs = n"
  shows "\<exists>slices. split_loop words twc n i pbs consumed segs = segs @ map str_join slices \<and>
           length slices = length pbs \<and> concat slices = drop consumed words"
  using assms
proof (induction pbs arbitrary: i consumed segs)
  case Nil
  then show ?case by simp
next
  case (Cons pb pbs)
  show ?case
  proof (cases "pbs = []")
    case True
    with Cons.prems have "int i = int n - 1" by simp
    with True have "split_loop words twc n i (pb # pbs) consumed segs
        = segs @ map str_join [drop consumed words]"
      by (simp add: Let_def)
    then show ?thesis using True by (intro exI[of _ "[drop consumed words]"]) simp
  next
    case False
    with Cons.prems have ni: "int i \<noteq> int n - 1" by (cases pbs) auto
    define count where "count = max 1 (py_round
       (real_of_int (word_end_idx pb - word_start_idx pb + 1) / real_of_int (max twc 1)
          * real (length words)))"
    define sw where "sw = take (nat count) (drop consumed words)"
    have step: "split_loop words twc n i (pb # pbs) consumed segs
        = split_loop words twc n (i + 1) pbs (consumed + length sw) (segs @ [str_join sw])"
      using ni by (simp add: Let_def sw_def count_def)
    from Cons.prems have "(i + 1) + length pbs = n" by simp
    from Cons.IH[OF False this, of "consumed + length sw" "segs @ [str_join sw]"]
    obtain slices where
      s1: "split_loop words twc n (i + 1) pbs (consumed + length sw) (segs @ [str_join sw])
            = (segs @ [str_join sw]) @ map str_join slices"
      and s2: "length slices = length pbs"
      and s3: "concat slices = drop (consumed + length sw) words"
      by blast
    have "drop (consumed + length sw) words = drop (length sw) (drop consumed words)"
      by (simp add: add.commute)
    then have "sw @ concat slices = drop consumed words"
      using s3 take_drop_rest[of "nat count" "drop consumed words"] by (simp add: sw_def)
    then show ?thesis
      using step s1 s2 by (intro exI[of _ "sw # slices"]) simp
  qed
qed

lemma split_from_nonempty:
  "w \<in> set (split_from cur s) \<Longrightarrow> w \<noteq> []"
  by (induction s arbitrary: cur) (auto split: if_splits)

lemma str_split_nonempty: "w \<in> set (str_split s) \<Longrightarrow> w \<noteq> []"
  unfolding str_split_def by (rule split_from_nonempty)

lemma str_join_Cons: "ws \<noteq> [] \<Longrightarrow> str_join (w # ws) = w @ CHR '' '' # str_join ws"
  by (cases ws) simp_all

lemma str_join_eq_Nil:
  "\<forall>w \<in> set ws. w \<noteq> [] \<Longrightarrow> str_join ws = [] \<longleftrightarrow> ws = []"
  by (cases ws rule: str_join.cases) simp_all

lemma str_join_append:
  "xs \<noteq> [] \<Longrightarrow> ys \<noteq> [] \<Longrightarrow> str_join (xs @ ys) = str_join xs @ CHR '' '' # str_join ys"
proof (induction xs)
  case Nil
  then show ?case by simp
next
  case (Cons x xs)
  show ?case
  proof (cases "xs = []")
    case True
    with Cons.prems show ?thesis by (simp add: str_join_Cons)
  next
    case False
    with Cons show ?thesis by (simp add: str_join_Cons)
  qed
qed

lemma str_join_nonempty_slices:
  assumes "\<forall>w \<in> set (concat slices). w \<noteq> []"
  shows "str_join (filter (\<lambda>s. s \<noteq> []) (map str_join slices)) = str_join (concat slices)"
  using assms
proof (induction slices)
  case Nil
  then show ?case by simp
next
  case (Cons sl slices)
  then have ih: "str_join (filter (\<lambda>s. s \<noteq> []) (map str_join slices)) = str_join (concat slices)"
    by simp
  from Cons.prems have ne1: "\<forall>w \<in> set sl. w \<noteq> []" and ne2: "\<forall>w \<in> set (concat slices). w \<noteq> []"
    by auto
  show ?case
  proof (cases "sl = []")
    case True
    then show ?thesis using ih by simp
  next
    case False
    with ne1 have j: "str_join sl \<noteq> []" by (simp add: str_join_eq_Nil)
    show ?thesis
    proof (cases "concat slices = []")
      case True
      with ih ne2 have "str_join (filter (\<lambda>s. s \<noteq> []) (map str_join slices)) = []" by simp
      moreover have "\<forall>w \<in> set (filter (\<lambda>s. s \<noteq> []) (map str_join slices)). w \<noteq> []" by simp
      ultimately have "filter (\<lambda>s. s \<noteq> []) (map str_join slices) = []"
        using str_join_eq_Nil by blast
      with j have f: "filter (\<lambda>s. s \<noteq> []) (map str_join (sl # slices)) = [str_join sl]"
        by simp
      have e: "concat (sl # slices) = sl" using True by simp
      show ?thesis unfolding f e by simp
    next
      case c: False
      with ih ne2 have "str_join (filter (\<lambda>s. s \<noteq> []) (map str_join slices)) \<noteq> []"
        by (simp add: str_join_eq_Nil)
      then have fne: "filter (\<lambda>s. s \<noteq> []) (map str_join slices) \<noteq> []" by auto
      have f: "filter (\<lambda>s. s \<noteq> []) (map str_join (sl # slices))
                = str_join sl # filter (\<lambda>s. s \<noteq> []) (map str_join slices)"
        using j by simp
      have e: "concat (sl # slices) = sl @ concat slices" by simp
      show ?thesis
        unfolding f e str_join_Cons[OF fne] str_join_append[OF False c] ih ..
    qed
  qed
qed

lemma split_from_word:
  "\<forall>c \<in> set w. \<not> is_space c \<Longrightarrow> split_from cur (w @ s) = split_from (cur @ w) s"
  by (induction w arbitrary: cur) simp_all

lemma split_from_space_free:
  "\<forall>c \<in> set cur. \<not> is_space c \<Longrightarrow> w \<in> set (split_from cur s) \<Longrightarrow> \<forall>c \<in> set w. \<not> is_space c"
proof (induction s arbitrary: cur)
  case Nil
  then show ?case by (auto split: if_splits)
next
  case (Cons a s)
  show ?case
  proof (cases "is_space a")
    case True
    with Cons.prems(2) have "w = cur \<or> w \<in> set (split_from [] s)"
      by (auto split: if_splits)
    then show ?thesis
    proof
      assume "w = cur"
      with Cons.prems(1) show ?thesis by simp
    next
      assume "w \<in> set (split_from [] s)"
      then show ?thesis by (intro Cons.IH[of "[]"]) simp_all
    qed
  next
    case False
    with Cons.prems(2) have "w \<in> set (split_from (cur @ [a]) s)" by simp
    then show ?thesis using False Cons.prems(1) by (intro Cons.IH[of "cur @ [a]"]) simp_all
  qed
qed

lemma str_split_space_free: "w \<in> set (str_split s) \<Longrightarrow> \<forall>c \<in> set w. \<not> is_space c"
  unfolding str_split_def using split_from_space_free[of "[]"] by simp

lemma is_space_blank: "is_space CHR '' ''"
  by (simp add: is_space_def)

lemma str_split_join:
  "\<forall>w \<in> set ws. w \<noteq> [] \<and> (\<forall>c \<in> set w. \<not> is_space c) \<Longrightarrow> str_split (str_join ws) = ws"
proof (induction ws rule: str_join.induct)
  case 1
  then show ?case by (simp add: str_split_def)
next
  case (2 w)
  then have "split_from [] (w @ []) = split_from ([] @ w) []"
    by (intro split_from_word) simp
  with 2 show ?case by (simp add: str_split_def)
next
  case (3 w v ws)
  then have ih: "split_from [] (str_join (v # ws)) = v # ws"
    by (simp add: str_split_def)
  from 3 have "split_from [] (w @ CHR '' '' # str_join (v # ws))
      = split_from ([] @ w) (CHR '' '' # str_join (v # ws))"
    by (intro split_from_word) simp
  also have "\<dots> = w # split_from [] (str_join (v # ws))"
    using 3 by (simp add: is_space_blank)
  finally show ?case using ih by (simp add: str_split_def)
qed

lemma str_split_normalised: "str_split (str_join (str_split t)) = str_split t"
  by (rule str_split_join) (simp add: str_split_nonempty str_split_space_free)

text \<open>
  C3. For every translation and every page list with more than one page, the segments
  returned by \<^verbatim>\<open>split_translation_by_pages\<close> are the space-joined texts of consecutive
  slices of the translation's word list, one slice per page, whose concatenation is the
  whole word list (so the last slice holds every word the earlier pages left). Joining
  the non-empty segments with single spaces gives the translation's words joined with
  single spaces, and splitting that string again gives the original word sequence.
\<close>

theorem translation_lossless:
  assumes "1 < length pbs"
  shows "\<exists>slices. split_translation_by_pages t pbs twc = map str_join slices \<and>
           length slices = length pbs \<and>
           concat slices = str_split t \<and>
           str_join (filter (\<lambda>s. s \<noteq> []) (split_translation_by_pages t pbs twc))
             = str_join (str_split t) \<and>
           str_split (str_join (filter (\<lambda>s. s \<noteq> []) (split_translation_by_pages t pbs twc)))
             = str_split t"
proof -
  have "\<exists>slices. split_translation_by_pages t pbs twc = map str_join slices \<and>
           length slices = length pbs \<and> concat slices = str_split t"
  proof (cases "t = []")
    case True
    then show ?thesis
      by (intro exI[of _ "replicate (length pbs) []"])
         (use assms in \<open>simp add: split_translation_by_pages_def str_split_def max_def\<close>)
  next
    case False
    from assms have pbs: "pbs \<noteq> []" by auto
    from split_loop_slices[OF pbs, of 0 "length pbs" "str_split t" twc 0 "[]"]
    obtain slices where
      s1: "split_loop (str_split t) twc (length pbs) 0 pbs 0 [] = map str_join slices"
      and s2: "length slices = length pbs" and s3: "concat slices = str_split t"
      by auto
    have "split_translation_by_pages t pbs twc = map str_join slices"
      using False pbs assms s1 s2 by (simp add: split_translation_by_pages_def Let_def)
    with s2 s3 show ?thesis by blast
  qed
  then obtain slices where
    r: "split_translation_by_pages t pbs twc = map str_join slices"
    and l: "length slices = length pbs" and c: "concat slices = str_split t"
    by blast
  have "\<forall>w \<in> set (concat slices). w \<noteq> []"
    using c str_split_nonempty by simp
  from str_join_nonempty_slices[OF this]
  have j: "str_join (filter (\<lambda>s. s \<noteq> []) (split_translation_by_pages t pbs twc))
          = str_join (str_split t)"
    using r c by simp
  then have "str_split (str_join (filter (\<lambda>s. s \<noteq> []) (split_translation_by_pages t pbs twc)))
          = str_split t"
    by (simp only: str_split_normalised)
  with r l c j show ?thesis by blast
qed

text \<open>Seven translation words over two pages of 12 and 3 source words.\<close>

lemma example_split:
  "split_translation_by_pages ''In the name of Allah  the Merciful''
     [\<lparr>page_index = 0, start_time = 0, end_time = 10, word_start_idx = 0, word_end_idx = 11\<rparr>,
      \<lparr>page_index = 1, start_time = 10, end_time = 13, word_start_idx = 12, word_end_idx = 14\<rparr>]
     15 = [''In the name of Allah the'', ''Merciful'']"
  by code_simp

lemma example_words:
  "str_split ''In the name of Allah  the Merciful''
     = [''In'', ''the'', ''name'', ''of'', ''Allah'', ''the'', ''Merciful'']"
  by code_simp

theorem translation_lossless_witness:
  "str_join (filter (\<lambda>s. s \<noteq> []) [''In the name of Allah the'', ''Merciful''])
     = str_join [''In'', ''the'', ''name'', ''of'', ''Allah'', ''the'', ''Merciful'']"
  using translation_lossless [of
     "[\<lparr>page_index = 0, start_time = 0, end_time = 10, word_start_idx = 0, word_end_idx = 11\<rparr>,
      \<lparr>page_index = 1, start_time = 10, end_time = 13, word_start_idx = 12, word_end_idx = 14\<rparr>]"
     "''In the name of Allah  the Merciful''" 15]
  unfolding example_split example_words by auto

subsection \<open>Accumulating text states\<close>

lemma states_inv_step:
  assumes ps: "1 \<le> ps" and inv: "states_inv ps cur sts" and tne: "txt \<noteq> []"
  shows "states_inv ps (cur @ [txt])
           (sts @ [\<lparr>state_start = a, state_end = b,
                    state_page = (int (length (cur @ [txt])) - 1) div ps,
                    state_text = str_join (slice_from (cur @ [txt])
                       ((int (length (cur @ [txt])) - 1) div ps * ps))\<rparr>])"
proof -
  from inv have len: "length sts = length cur"
    and ne: "\<forall>w \<in> set cur. w \<noteq> []"
    and old: "\<And>i. i < length sts \<Longrightarrow>
        state_page (sts ! i) = int i div ps \<and>
        state_text (sts ! i) = str_join (drop (nat (int i div ps * ps)) (take (Suc i) cur))"
    by (simp_all add: states_inv_def)
  define k where "k = int (length cur)"
  have k: "(int (length (cur @ [txt])) - 1) = k" by (simp add: k_def)
  have q0: "0 \<le> k div ps" using ps by (simp add: k_def pos_imp_zdiv_nonneg_iff)
  then have q1: "0 \<le> k div ps * ps" using ps by simp
  have new: "slice_from (cur @ [txt]) (k div ps * ps) = drop (nat (k div ps * ps)) (cur @ [txt])"
    using q1 by (simp add: slice_from_def)
  show ?thesis
    unfolding states_inv_def k new
  proof (intro conjI allI impI)
    show "length (sts @ [\<lparr>state_start = a, state_end = b, state_page = k div ps,
        state_text = str_join (drop (nat (k div ps * ps)) (cur @ [txt]))\<rparr>]) = length (cur @ [txt])"
      by (simp add: len)
    show "\<forall>w \<in> set (cur @ [txt]). w \<noteq> []" using ne tne by simp
  next
    fix i
    assume "i < length (sts @ [\<lparr>state_start = a, state_end = b, state_page = k div ps,
        state_text = str_join (drop (nat (k div ps * ps)) (cur @ [txt]))\<rparr>])"
    then consider "i < length sts" | "i = length sts" by fastforce
    then have "state_page ((sts @ [\<lparr>state_start = a, state_end = b, state_page = k div ps,
        state_text = str_join (drop (nat (k div ps * ps)) (cur @ [txt]))\<rparr>]) ! i) = int i div ps \<and>
      state_text ((sts @ [\<lparr>state_start = a, state_end = b, state_page = k div ps,
        state_text = str_join (drop (nat (k div ps * ps)) (cur @ [txt]))\<rparr>]) ! i)
        = str_join (drop (nat (int i div ps * ps)) (take (Suc i) (cur @ [txt])))"
    proof cases
      case 1
      then show ?thesis using old[OF 1] len by (simp add: nth_append)
    next
      case 2
      then show ?thesis using len by (simp add: nth_append k_def)
    qed
    then show "state_page ((sts @ [\<lparr>state_start = a, state_end = b, state_page = k div ps,
        state_text = str_join (drop (nat (k div ps * ps)) (cur @ [txt]))\<rparr>]) ! i) = int i div ps"
      and "state_text ((sts @ [\<lparr>state_start = a, state_end = b, state_page = k div ps,
        state_text = str_join (drop (nat (k div ps * ps)) (cur @ [txt]))\<rparr>]) ! i)
        = str_join (drop (nat (int i div ps * ps)) (take (Suc i) (cur @ [txt])))"
      by simp_all
  qed
qed

lemma build_states_inv:
  assumes "1 \<le> ps"
  shows "states_inv ps cur sts \<Longrightarrow> build_states ps wm dur segs cur sts = Inr out \<Longrightarrow>
         \<exists>cur'. states_inv ps cur' out \<and> set cur' \<subseteq> set cur \<union> ran wm"
proof (induction segs arbitrary: cur sts)
  case Nil
  then show ?case by auto
next
  case (Cons seg rest)
  define tx where "tx = (case wm (word_index seg) of None \<Rightarrow> [] | Some s \<Rightarrow> s)"
  show ?case
  proof (cases "tx = []")
    case True
    with Cons.prems(2) have "build_states ps wm dur rest cur sts = Inr out"
      by (simp add: tx_def Let_def)
    from Cons.IH[OF Cons.prems(1) this] show ?thesis .
  next
    case False
    then have mem: "tx \<in> ran wm"
      by (auto simp add: tx_def ranI split: option.splits)
    define a where "a = real_of_int (start_ms seg) / 1000"
    define e where "e = (case rest of [] \<Rightarrow> dur | nxt # _ \<Rightarrow> real_of_int (start_ms nxt) / 1000)"
    define b where "b = (if e - a < 5 / 100 then a + 5 / 100 else e)"
    define st where "st = \<lparr>state_start = a, state_end = b,
                    state_page = (int (length (cur @ [tx])) - 1) div ps,
                    state_text = str_join (slice_from (cur @ [tx])
                       ((int (length (cur @ [tx])) - 1) div ps * ps))\<rparr>"
    have ps0: "ps \<noteq> 0" using assms by simp
    have "build_states ps wm dur (seg # rest) cur sts
            = build_states ps wm dur rest (cur @ [tx]) (sts @ [st])"
      using False ps0 unfolding st_def b_def e_def a_def
      by (simp add: tx_def[symmetric] Let_def)
    with Cons.prems(2) have run: "build_states ps wm dur rest (cur @ [tx]) (sts @ [st]) = Inr out"
      by simp
    have "states_inv ps (cur @ [tx]) (sts @ [st])"
      unfolding st_def by (rule states_inv_step[OF assms Cons.prems(1) False])
    from Cons.IH[OF this run] obtain cur' where
      "states_inv ps cur' out" and "set cur' \<subseteq> set (cur @ [tx]) \<union> ran wm" by blast
    with mem show ?thesis by auto
  qed
qed


lemma next_page_cases:
  fixes k ps :: int
  assumes "1 \<le> ps" and "0 \<le> k"
  shows "((k + 1) div ps = k div ps \<and> 0 \<le> k div ps * ps \<and> k div ps * ps \<le> k) \<or>
         ((k + 1) div ps = k div ps + 1 \<and> (k div ps + 1) * ps = k + 1)"
proof -
  have ps0: "0 < ps" using assms(1) by simp
  have eq: "k = ps * (k div ps) + k mod ps" by simp
  have m0: "0 \<le> k mod ps" using ps0 by (rule pos_mod_sign)
  have m1: "k mod ps < ps" using ps0 by (rule pos_mod_bound)
  have q0: "0 \<le> k div ps" using assms(2) ps0 by (simp add: pos_imp_zdiv_nonneg_iff)
  show ?thesis
  proof (cases "k mod ps + 1 < ps")
    case True
    have "k + 1 = ps * (k div ps) + (k mod ps + 1)" using eq by linarith
    from int_div_pos_eq[OF this _ True] m0 have d: "(k + 1) div ps = k div ps" by simp
    have "ps * (k div ps) \<le> k" using eq m0 by linarith
    then have "k div ps * ps \<le> k" by (simp only: mult.commute)
    moreover have "0 \<le> k div ps * ps" using q0 ps0 by simp
    ultimately show ?thesis using d by blast
  next
    case False
    with m1 have r: "k mod ps + 1 = ps" by linarith
    have "ps * (k div ps + 1) = ps * (k div ps) + ps" by (simp add: algebra_simps)
    then have e: "k + 1 = ps * (k div ps + 1) + 0" using eq r by linarith
    from int_div_pos_eq[OF e _ ps0] have d: "(k + 1) div ps = k div ps + 1" by simp
    have "(k div ps + 1) * ps = k + 1" using e by (simp add: mult.commute)
    with d show ?thesis by blast
  qed
qed

text \<open>
  C6 (as amended). Let the page size be at least one. In the state list built by
  \<^verbatim>\<open>create_accumulating_text_lines\<close>, take two consecutive states. The page index of
  the later one is that of the earlier one or one more. If it is the same, the later
  display string is the earlier one extended by a blank and exactly one word of the word
  map: the earlier string joins a non-empty word list \<open>ws\<close> and the later one joins \<open>ws\<close>
  followed by that word. If the page index differs, the later display string is a single
  word of the word map.
\<close>

theorem accumulation_monotone:
  assumes ps: "1 \<le> ps"
    and run: "text_states segments words dur ps = Inr sts"
    and i: "Suc i < length sts"
  shows "(state_page (sts ! Suc i) = state_page (sts ! i) \<or>
          state_page (sts ! Suc i) = state_page (sts ! i) + 1) \<and>
         (state_page (sts ! Suc i) = state_page (sts ! i) \<longrightarrow>
            (\<exists>ws w. ws \<noteq> [] \<and> w \<noteq> [] \<and> w \<in> ran (word_map words) \<and>
               state_text (sts ! i) = str_join ws \<and>
               state_text (sts ! Suc i) = str_join (ws @ [w]) \<and>
               state_text (sts ! Suc i) = state_text (sts ! i) @ CHR '' '' # w)) \<and>
         (state_page (sts ! Suc i) \<noteq> state_page (sts ! i) \<longrightarrow>
            (\<exists>w. w \<noteq> [] \<and> w \<in> ran (word_map words) \<and> state_text (sts ! Suc i) = w))"
proof -
  have "states_inv ps [] []" by (simp add: states_inv_def)
  from build_states_inv[OF ps this run[unfolded text_states_def]]
  obtain cur where inv: "states_inv ps cur sts" and sub: "set cur \<subseteq> ran (word_map words)"
    by auto
  from inv have len: "length sts = length cur"
    and ne: "\<forall>w \<in> set cur. w \<noteq> []"
    and nth: "\<And>j. j < length sts \<Longrightarrow>
        state_page (sts ! j) = int j div ps \<and>
        state_text (sts ! j) = str_join (drop (nat (int j div ps * ps)) (take (Suc j) cur))"
    by (simp_all add: states_inv_def)
  define w where "w = cur ! Suc i"
  have wmem: "w \<in> set cur" using i len by (simp add: w_def)
  then have w1: "w \<noteq> []" and w2: "w \<in> ran (word_map words)" using ne sub by auto
  have i0: "i < length sts" using i by simp
  have p1: "state_page (sts ! i) = int i div ps"
    and t1: "state_text (sts ! i) = str_join (drop (nat (int i div ps * ps)) (take (Suc i) cur))"
    using nth[OF i0] by simp_all
  have p2: "state_page (sts ! Suc i) = (int i + 1) div ps"
    and t2: "state_text (sts ! Suc i)
       = str_join (drop (nat ((int i + 1) div ps * ps)) (take (Suc (Suc i)) cur))"
    using nth[OF i] by (simp_all add: add.commute)
  have tk: "take (Suc (Suc i)) cur = take (Suc i) cur @ [w]"
    using i len by (simp add: w_def take_Suc_conv_app_nth)
  have lt: "length (take (Suc i) cur) = Suc i" using i len by simp
  from next_page_cases[OF ps, of "int i"]
  consider (same) "(int i + 1) div ps = int i div ps" "0 \<le> int i div ps * ps" "int i div ps * ps \<le> int i"
    | (turn) "(int i + 1) div ps = int i div ps + 1" "(int i div ps + 1) * ps = int i + 1"
    by auto
  then show ?thesis
  proof cases
    case same
    define n where "n = nat (int i div ps * ps)"
    have n: "n \<le> i" using same(2,3) by (simp add: n_def)
    define ws where "ws = drop n (take (Suc i) cur)"
    have wsne: "ws \<noteq> []" using n lt by (simp add: ws_def)
    have d1: "state_text (sts ! i) = str_join ws" using t1 by (simp add: ws_def n_def)
    have "drop n (take (Suc i) cur @ [w]) = ws @ [w]"
      using n lt by (simp add: ws_def)
    then have d2: "state_text (sts ! Suc i) = str_join (ws @ [w])"
      using t2 same(1) tk by (simp add: n_def)
    have "str_join (ws @ [w]) = str_join ws @ CHR '' '' # str_join [w]"
      using wsne by (intro str_join_append) simp_all
    then have d3: "state_text (sts ! Suc i) = state_text (sts ! i) @ CHR '' '' # w"
      using d1 d2 by simp
    have pe: "state_page (sts ! Suc i) = state_page (sts ! i)" using p1 p2 same(1) by simp
    show ?thesis using pe wsne w1 w2 d1 d2 d3 by blast
  next
    case turn
    have "nat ((int i + 1) div ps * ps) = Suc i" using turn by simp
    then have "state_text (sts ! Suc i) = str_join (drop (Suc i) (take (Suc i) cur @ [w]))"
      using t2 tk by simp
    then have d: "state_text (sts ! Suc i) = w" using lt by simp
    have pe: "state_page (sts ! Suc i) = state_page (sts ! i) + 1" using p1 p2 turn(1) by simp
    show ?thesis using pe d w1 w2 by simp
  qed
qed


text \<open>Three timed words, given out of order, shown two per page.\<close>

lemma example_states:
  "text_states
     [\<lparr>word_index = 2, start_ms = 300, end_ms = 550\<rparr>,
      \<lparr>word_index = 1, start_ms = 0, end_ms = 280\<rparr>,
      \<lparr>word_index = 3, start_ms = 600, end_ms = 900\<rparr>]
     [\<lparr>position = 1, word_text = ''a''\<rparr>, \<lparr>position = 2, word_text = ''b''\<rparr>,
      \<lparr>position = 3, word_text = ''c''\<rparr>] 1 2
   = Inr [\<lparr>state_start = 0, state_end = 3 / 10, state_page = 0, state_text = ''a''\<rparr>,
          \<lparr>state_start = 3 / 10, state_end = 3 / 5, state_page = 0, state_text = ''a b''\<rparr>,
          \<lparr>state_start = 3 / 5, state_end = 1, state_page = 1, state_text = ''c''\<rparr>]"
  by (simp add: text_states_def word_map_def slice_from_def Let_def)

theorem accumulation_monotone_witness:
  "\<exists>ws w. ws \<noteq> [] \<and> w \<noteq> [] \<and>
     w \<in> ran (word_map [\<lparr>position = 1, word_text = ''a''\<rparr>, \<lparr>position = 2, word_text = ''b''\<rparr>,
                         \<lparr>position = 3, word_text = ''c''\<rparr>]) \<and>
     ''a'' = str_join ws \<and> ''a b'' = str_join (ws @ [w]) \<and> ''a b'' = ''a'' @ CHR '' '' # w"
  using accumulation_monotone [OF _ example_states, of 0] by simp

text \<open>
  The claim as stated, for every page size, fails for a negative one, which the style
  configuration does not exclude. With a page size of \<open>-3\<close> the second and the third
  word are both on page \<open>-1\<close>, whose slice of the word buffer is empty: the two states
  have the same page index and the same empty display string, so the later one does not
  extend the earlier one by a word.
\<close>

theorem accumulation_monotone_counterexample:
  "text_states
     [\<lparr>word_index = 1, start_ms = 0, end_ms = 280\<rparr>,
      \<lparr>word_index = 2, start_ms = 300, end_ms = 550\<rparr>,
      \<lparr>word_index = 3, start_ms = 600, end_ms = 900\<rparr>]
     [\<lparr>position = 1, word_text = ''a''\<rparr>, \<lparr>position = 2, word_text = ''b''\<rparr>,
      \<lparr>position = 3, word_text = ''c''\<rparr>] 1 (- 3)
   = Inr [\<lparr>state_start = 0, state_end = 3 / 10, state_page = 0, state_text = ''a''\<rparr>,
          \<lparr>state_start = 3 / 10, state_end = 3 / 5, state_page = - 1, state_text = []\<rparr>,
          \<lparr>state_start = 3 / 5, state_end = 1, state_page = - 1, state_text = []\<rparr>] \<and>
   state_page \<lparr>state_start = 3 / 5, state_end = 1, state_page = - 1, state_text = []\<rparr>
     = state_page \<lparr>state_start = 3 / 10, state_end = 3 / 5, state_page = - 1, state_text = []\<rparr> \<and>
   state_text \<lparr>state_start = 3 / 5, state_end = 1, state_page = - 1, state_text = []\<rparr>
     = state_text \<lparr>state_start = 3 / 10, state_end = 3 / 5, state_page = - 1, state_text = []\<rparr> \<and>
   length (str_split (state_text
       \<lparr>state_start = 3 / 5, state_end = 1, state_page = - 1, state_text = []\<rparr>))
     \<noteq> length (str_split (state_text
       \<lparr>state_start = 3 / 10, state_end = 3 / 5, state_page = - 1, state_text = []\<rparr>)) + 1"
  by (simp add: text_states_def word_map_def slice_from_def str_split_def Let_def)

subsection \<open>State lookup\<close>

lemma build_states_starts:
  "build_states ps wm dur segs cur sts = Inr out \<Longrightarrow>
   map state_start out = map state_start sts @
     map (\<lambda>s. real_of_int (start_ms s) / 1000)
       (filter (\<lambda>s. (case wm (word_index s) of None \<Rightarrow> [] | Some x \<Rightarrow> x) \<noteq> []) segs)"
proof (induction segs arbitrary: cur sts)
  case Nil
  then show ?case by simp
next
  case (Cons seg rest)
  show ?case
  proof (cases "(case wm (word_index seg) of None \<Rightarrow> [] | Some x \<Rightarrow> x) = []")
    case True
    with Cons.prems have "build_states ps wm dur rest cur sts = Inr out"
      by (simp add: Let_def)
    from Cons.IH[OF this] True show ?thesis by simp
  next
    case False
    with Cons.prems obtain st where
      run: "build_states ps wm dur rest
              (cur @ [case wm (word_index seg) of None \<Rightarrow> [] | Some x \<Rightarrow> x]) (sts @ [st]) = Inr out"
      and st: "state_start st = real_of_int (start_ms seg) / 1000"
      by (auto simp add: Let_def split: if_splits)
    from Cons.IH[OF run] False st show ?thesis by simp
  qed
qed

lemma text_states_sorted:
  assumes "text_states segments words dur ps = Inr states"
  shows "sorted (map state_start states)"
proof -
  define has_text where
    "has_text = (\<lambda>s::segment. (case word_map words (word_index s) of None \<Rightarrow> [] | Some x \<Rightarrow> x) \<noteq> [])"
  define kept where "kept = filter has_text (sort_key start_ms segments)"
  have "sorted (map start_ms (sort_key start_ms segments))" by (rule sorted_sort_key)
  then have "sorted (map start_ms kept)" unfolding kept_def by (rule sorted_filter)
  then have "sorted_wrt (\<lambda>a b. start_ms a \<le> start_ms b) kept"
    by (simp add: sorted_wrt_map)
  then have "sorted_wrt (\<lambda>a b. real_of_int (start_ms a) / 1000 \<le> real_of_int (start_ms b) / 1000) kept"
    by (rule sorted_wrt_mono_rel[rotated]) (simp add: divide_right_mono)
  then have "sorted (map (\<lambda>s. real_of_int (start_ms s) / 1000) kept)"
    by (simp add: sorted_wrt_map)
  moreover from build_states_starts[OF assms[unfolded text_states_def]]
  have "map state_start states = map (\<lambda>s. real_of_int (start_ms s) / 1000) kept"
    by (simp add: kept_def has_text_def)
  ultimately show ?thesis by simp
qed

lemma first_match_None:
  "\<forall>s \<in> set states. \<not> contains_time s t \<Longrightarrow> first_match states t = None"
  by (induction states) (simp_all add: contains_time_def)

lemma first_match_first:
  "\<forall>s' \<in> set pre. \<not> contains_time s' t \<Longrightarrow> contains_time s t \<Longrightarrow>
   first_match (pre @ s # post) t = Some (Rendered (state_text s))"
  by (induction pre) (auto simp add: contains_time_def)

text \<open>
  C10. For the non-empty state list built by \<^verbatim>\<open>create_accumulating_text_lines\<close> and a
  query time strictly before the first state's start, \<^verbatim>\<open>_get_state_at\<close> returns the
  transparent empty frame, not the first state. When no state's interval holds the query
  time, the last state is returned exactly if the time is at or after the last state's
  start, and the empty frame otherwise. When intervals overlap, the first state in list
  order whose interval holds the query time is returned.
\<close>

theorem state_lookup:
  "(text_states segments words dur ps = Inr states \<and> states \<noteq> [] \<and> t < state_start (hd states)
      \<longrightarrow> get_state_at states t = Empty_frame) \<and>
   ((\<forall>s \<in> set states. \<not> contains_time s t)
      \<longrightarrow> get_state_at states t =
            (if states \<noteq> [] \<and> state_start (last states) \<le> t
             then Rendered (state_text (last states)) else Empty_frame)) \<and>
   (states = pre @ s # post \<and> (\<forall>s' \<in> set pre. \<not> contains_time s' t) \<and> contains_time s t
      \<longrightarrow> get_state_at states t = Rendered (state_text s))"
proof (intro conjI impI)
  assume a: "text_states segments words dur ps = Inr states \<and> states \<noteq> [] \<and>
             t < state_start (hd states)"
  then have "text_states segments words dur ps = Inr states" by simp
  then have srt: "sorted (map state_start states)" by (rule text_states_sorted)
  from a obtain s0 rest where sr: "states = s0 # rest" by (cases states) auto
  have lo: "state_start s0 \<le> state_start s" if "s \<in> set states" for s
    using srt that by (auto simp add: sr)
  have "\<not> contains_time s t" if "s \<in> set states" for s
    using lo[OF that] a by (simp add: contains_time_def sr)
  then have none: "first_match states t = None" by (simp add: first_match_None)
  have "last states \<in> set states" using a by simp
  from lo[OF this] a have "t < state_start (last states)" by (simp add: sr)
  with none show "get_state_at states t = Empty_frame"
    by (simp add: get_state_at_def)
next
  assume "\<forall>s \<in> set states. \<not> contains_time s t"
  then have "first_match states t = None" by (rule first_match_None)
  then show "get_state_at states t =
            (if states \<noteq> [] \<and> state_start (last states) \<le> t
             then Rendered (state_text (last states)) else Empty_frame)"
    by (simp add: get_state_at_def)
next
  assume "states = pre @ s # post \<and> (\<forall>s' \<in> set pre. \<not> contains_time s' t) \<and> contains_time s t"
  then show "get_state_at states t = Rendered (state_text s)"
    by (simp add: get_state_at_def first_match_first)
qed

text \<open>
  Two words 20 ms apart: the first state is stretched to 50 ms and overlaps the second.
\<close>

lemma example_overlap:
  "text_states
     [\<lparr>word_index = 1, start_ms = 200, end_ms = 220\<rparr>,
      \<lparr>word_index = 2, start_ms = 220, end_ms = 700\<rparr>]
     [\<lparr>position = 1, word_text = ''a''\<rparr>, \<lparr>position = 2, word_text = ''b''\<rparr>] 1 12
   = Inr [\<lparr>state_start = 1 / 5, state_end = 1 / 4, state_page = 0, state_text = ''a''\<rparr>,
          \<lparr>state_start = 11 / 50, state_end = 1, state_page = 0, state_text = ''a b''\<rparr>]"
  by (simp add: text_states_def word_map_def slice_from_def Let_def)

theorem state_lookup_witness:
  "get_state_at
     [\<lparr>state_start = 1 / 5, state_end = 1 / 4, state_page = 0, state_text = ''a''\<rparr>,
      \<lparr>state_start = 11 / 50, state_end = 1, state_page = 0, state_text = ''a b''\<rparr>] (1 / 10)
     = Empty_frame \<and>
   get_state_at
     [\<lparr>state_start = 1 / 5, state_end = 1 / 4, state_page = 0, state_text = ''a''\<rparr>,
      \<lparr>state_start = 11 / 50, state_end = 1, state_page = 0, state_text = ''a b''\<rparr>] 2
     = Rendered ''a b'' \<and>
   get_state_at
     [\<lparr>state_start = 1 / 5, state_end = 1 / 4, state_page = 0, state_text = ''a''\<rparr>,
      \<lparr>state_start = 11 / 50, state_end = 1, state_page = 0, state_text = ''a b''\<rparr>] (23 / 100)
     = Rendered ''a''"
  using
    state_lookup [of
      "[\<lparr>word_index = 1, start_ms = 200, end_ms = 220\<rparr>,
        \<lparr>word_index = 2, start_ms = 220, end_ms = 700\<rparr>]"
      "[\<lparr>position = 1, word_text = ''a''\<rparr>, \<lparr>position = 2, word_text = ''b''\<rparr>]" 1 12
      "[\<lparr>state_start = 1 / 5, state_end = 1 / 4, state_page = 0, state_text = ''a''\<rparr>,
        \<lparr>state_start = 11 / 50, state_end = 1, state_page = 0, state_text = ''a b''\<rparr>]"
      "1 / 10"]
    state_lookup [of _ _ _ _
      "[\<lparr>state_start = 1 / 5, state_end = 1 / 4, state_page = 0, state_text = ''a''\<rparr>,
        \<lparr>state_start = 11 / 50, state_end = 1, state_page = 0, state_text = ''a b''\<rparr>]"
      2]
    state_lookup [of _ _ _ _
      "[\<lparr>state_start = 1 / 5, state_end = 1 / 4, state_page = 0, state_text = ''a''\<rparr>,
        \<lparr>state_start = 11 / 50, state_end = 1, state_page = 0, state_text = ''a b''\<rparr>]"
      "23 / 100" "[]"
      "\<lparr>state_start = 1 / 5, state_end = 1 / 4, state_page = 0, state_text = ''a''\<rparr>"
      "[\<lparr>state_start = 11 / 50, state_end = 1, state_page = 0, state_text = ''a b''\<rparr>]"]
  by (simp add: example_overlap contains_time_def)

subsection \<open>Crossfade\<close>

lemma crossfade_frames_append:
  "crossfade_frames (xs @ ys) T acc = crossfade_frames ys T (crossfade_frames xs T acc)"
proof (induction xs arbitrary: acc)
  case Nil
  then show ?case by (cases acc) simp
next
  case (Cons x xs)
  then show ?case by (cases acc) simp
qed

lemma last_active_snoc:
  "last_active (xs @ [s]) t =
     (if contains_time s t then Rendered (state_text s) else last_active xs t)"
proof (cases "contains_time s t")
  case True
  define fs where "fs = filter (\<lambda>s. contains_time s t) xs @ [s]"
  have l: "last fs = s" by (simp add: fs_def)
  have "fs \<noteq> []" by (simp add: fs_def)
  then obtain y ys where c: "fs = y # ys" by (cases fs) auto
  have "(case fs of [] \<Rightarrow> Empty_frame | x # xs \<Rightarrow> Rendered (state_text (last (x # xs))))
          = Rendered (state_text s)"
    using l unfolding c by simp
  with True show ?thesis by (simp add: last_active_def fs_def)
next
  case False
  then show ?thesis by (simp add: last_active_def)
qed

lemma crossfade_frames_last_active:
  "crossfade_frames states T (Empty_frame, Empty_frame)
     = (last_active states (T - 1 / 100), last_active states (T + 1 / 100))"
proof (induction states rule: rev_induct)
  case Nil
  then show ?case by (simp add: last_active_def)
next
  case (snoc s states)
  then show ?case
    by (simp add: crossfade_frames_append last_active_snoc contains_time_def)
qed

lemma make_frame_scan_window:
  assumes "0 < d" and "\<forall>T' \<in> set pre. \<not> in_window T' d t" and "in_window T d t"
  shows "make_frame_scan states d (pre @ T # post) t
           = Inr (Blended (last_active states (T - 1 / 100)) (last_active states (T + 1 / 100))
                    (blend_formula T d t))"
  using assms(2)
proof (induction pre)
  case Nil
  then show ?case
    using assms(1,3)
    by (simp add: in_window_def blend_formula_def crossfade_frames_last_active Let_def)
next
  case (Cons T' pre)
  then show ?case by (auto simp add: in_window_def)
qed

lemma make_frame_scan_outside:
  "\<forall>T' \<in> set ts. \<not> in_window T' d t \<Longrightarrow>
   make_frame_scan states d ts t = Inr (Plain (get_state_at states t))"
  by (induction ts) (auto simp add: in_window_def)

lemma blend_formula_inside:
  assumes "0 < d" and "in_window T d t"
  shows "blend_formula T d t = (t - (T - d / 2)) / d"
proof -
  from assms have a: "0 \<le> t - (T - d / 2)" and b: "t - (T - d / 2) \<le> d"
    by (simp_all add: in_window_def)
  from a assms(1) have "0 \<le> (t - (T - d / 2)) / d" by simp
  moreover from b assms(1) have "(t - (T - d / 2)) / d \<le> 1" by simp
  ultimately show ?thesis by (simp add: blend_formula_def)
qed

text \<open>
  C7 (as amended). Let the crossfade duration \<open>d\<close> be positive, \<open>T\<close> a detected page
  transition and \<open>t\<close> a query time in \<open>[T - d/2, T + d/2]\<close> that lies in the window of no
  transition detected earlier in the list. Then the frame function mixes two buffers with
  the blend factor \<open>clamp((t - (T - d/2)) / d, 0, 1)\<close>: the outgoing buffer is that of the
  last state in list order whose interval holds \<open>T - 0.01\<close>, the incoming one that of the
  last state whose interval holds \<open>T + 0.01\<close> (the empty frame when there is none). The
  factor is \<open>0\<close> at the window start and \<open>1\<close> at the window end, where the mixed channel
  value is the outgoing and the incoming one, and it is strictly increasing across the
  window. For a time outside every transition window the frame is the result of the state
  lookup, unmodified. Where windows overlap, the transition detected first decides.
\<close>

theorem crossfade_blend:
  assumes "0 < d"
  shows "(page_transitions states = pre @ T # post \<and> (\<forall>T' \<in> set pre. \<not> in_window T' d t) \<and>
          in_window T d t \<longrightarrow>
            make_frame states d t =
              Inr (Blended (last_active states (T - 1 / 100)) (last_active states (T + 1 / 100))
                     (blend_formula T d t))) \<and>
         blend_formula T d (T - d / 2) = 0 \<and>
         blend_formula T d (T + d / 2) = 1 \<and>
         (in_window T d t1 \<and> in_window T d t2 \<and> t1 < t2 \<longrightarrow>
            blend_formula T d t1 < blend_formula T d t2) \<and>
         blend_value 0 out_v in_v = out_v \<and> blend_value 1 out_v in_v = in_v \<and>
         ((\<forall>T' \<in> set (page_transitions states). \<not> in_window T' d t) \<longrightarrow>
            make_frame states d t = Inr (Plain (get_state_at states t)))"
proof (intro conjI impI)
  assume "page_transitions states = pre @ T # post \<and> (\<forall>T' \<in> set pre. \<not> in_window T' d t) \<and>
          in_window T d t"
  then show "make_frame states d t =
              Inr (Blended (last_active states (T - 1 / 100)) (last_active states (T + 1 / 100))
                     (blend_formula T d t))"
    using assms by (simp add: make_frame_def make_frame_scan_window)
next
  show "blend_formula T d (T - d / 2) = 0" by (simp add: blend_formula_def)
next
  have "(T + d / 2 - (T - d / 2)) / d = 1" using assms by simp
  then show "blend_formula T d (T + d / 2) = 1" by (simp add: blend_formula_def)
next
  assume a: "in_window T d t1 \<and> in_window T d t2 \<and> t1 < t2"
  then have "t1 - (T - d / 2) < t2 - (T - d / 2)" by simp
  then have "(t1 - (T - d / 2)) / d < (t2 - (T - d / 2)) / d"
    using assms by (rule divide_strict_right_mono)
  then show "blend_formula T d t1 < blend_formula T d t2"
    using a assms by (simp add: blend_formula_inside)
next
  show "blend_value 0 out_v in_v = out_v" by (simp add: blend_value_def)
next
  show "blend_value 1 out_v in_v = in_v" by (simp add: blend_value_def)
next
  assume "\<forall>T' \<in> set (page_transitions states). \<not> in_window T' d t"
  then show "make_frame states d t = Inr (Plain (get_state_at states t))"
    by (simp add: make_frame_def make_frame_scan_outside)
qed

text \<open>
  The claim as stated, for every detected transition, fails where windows overlap. With one
  word per page, words at 0, 300 and 600 ms and a crossfade of 0.5 s, the time 0.5 lies in
  the window of the transition at 0.6 and in that of the earlier transition at 0.3; the
  frame function mixes the states around 0.3 with factor 0.9, not those around 0.6 with
  factor 0.3.
\<close>

theorem crossfade_blend_counterexample:
  "text_states
     [\<lparr>word_index = 1, start_ms = 0, end_ms = 280\<rparr>,
      \<lparr>word_index = 2, start_ms = 300, end_ms = 550\<rparr>,
      \<lparr>word_index = 3, start_ms = 600, end_ms = 900\<rparr>]
     [\<lparr>position = 1, word_text = ''a''\<rparr>, \<lparr>position = 2, word_text = ''b''\<rparr>,
      \<lparr>position = 3, word_text = ''c''\<rparr>] 1 1
   = Inr [\<lparr>state_start = 0, state_end = 3 / 10, state_page = 0, state_text = ''a''\<rparr>,
          \<lparr>state_start = 3 / 10, state_end = 3 / 5, state_page = 1, state_text = ''b''\<rparr>,
          \<lparr>state_start = 3 / 5, state_end = 1, state_page = 2, state_text = ''c''\<rparr>] \<and>
   page_transitions
     [\<lparr>state_start = 0, state_end = 3 / 10, state_page = 0, state_text = ''a''\<rparr>,
      \<lparr>state_start = 3 / 10, state_end = 3 / 5, state_page = 1, state_text = ''b''\<rparr>,
      \<lparr>state_start = 3 / 5, state_end = 1, state_page = 2, state_text = ''c''\<rparr>]
     = [3 / 10, 3 / 5] \<and>
   in_window (3 / 5) (1 / 2) (1 / 2) \<and>
   make_frame
     [\<lparr>state_start = 0, state_end = 3 / 10, state_page = 0, state_text = ''a''\<rparr>,
      \<lparr>state_start = 3 / 10, state_end = 3 / 5, state_page = 1, state_text = ''b''\<rparr>,
      \<lparr>state_start = 3 / 5, state_end = 1, state_page = 2, state_text = ''c''\<rparr>] (1 / 2) (1 / 2)
     = Inr (Blended (Rendered ''a'') (Rendered ''b'') (9 / 10)) \<and>
   blend_formula (3 / 5) (1 / 2) (1 / 2) = 3 / 10 \<and>
   (9 / 10 :: real) \<noteq> blend_formula (3 / 5) (1 / 2) (1 / 2)"
  by (simp add: text_states_def word_map_def slice_from_def make_frame_def in_window_def
        blend_formula_def Let_def)

theorem crossfade_blend_witness:
  "make_frame
     [\<lparr>state_start = 0, state_end = 3 / 10, state_page = 0, state_text = ''a''\<rparr>,
      \<lparr>state_start = 3 / 10, state_end = 3 / 5, state_page = 1, state_text = ''b''\<rparr>,
      \<lparr>state_start = 3 / 5, state_end = 1, state_page = 2, state_text = ''c''\<rparr>] (1 / 2) (7 / 10)
     = Inr (Blended (Rendered ''b'') (Rendered ''c'') (7 / 10)) \<and>
   make_frame
     [\<lparr>state_start = 0, state_end = 3 / 10, state_page = 0, state_text = ''a''\<rparr>,
      \<lparr>state_start = 3 / 10, state_end = 3 / 5, state_page = 1, state_text = ''b''\<rparr>,
      \<lparr>state_start = 3 / 5, state_end = 1, state_page = 2, state_text = ''c''\<rparr>] (1 / 2) (9 / 10)
     = Inr (Plain (Rendered ''c'')) \<and>
   blend_formula (3 / 5) (1 / 2) (6 / 10) < blend_formula (3 / 5) (1 / 2) (7 / 10)"
  using
    crossfade_blend [of "1 / 2"
      "[\<lparr>state_start = 0, state_end = 3 / 10, state_page = 0, state_text = ''a''\<rparr>,
        \<lparr>state_start = 3 / 10, state_end = 3 / 5, state_page = 1, state_text = ''b''\<rparr>,
        \<lparr>state_start = 3 / 5, state_end = 1, state_page = 2, state_text = ''c''\<rparr>]"
      "[3 / 10]" "3 / 5" "[]" "7 / 10" "6 / 10" "7 / 10"]
    crossfade_blend [of "1 / 2"
      "[\<lparr>state_start = 0, state_end = 3 / 10, state_page = 0, state_text = ''a''\<rparr>,
        \<lparr>state_start = 3 / 10, state_end = 3 / 5, state_page = 1, state_text = ''b''\<rparr>,
        \<lparr>state_start = 3 / 5, state_end = 1, state_page = 2, state_text = ''c''\<rparr>]"
      "[]" "3 / 5" "[]" "9 / 10"]
  by (simp add: in_window_def last_active_def contains_time_def blend_formula_def get_state_at_def)

subsection \<open>Unit sequencing and the audio probe\<close>

lemma accumulate_inv:
  assumes "accumulate fetch m e ad ct ca = Inr (ad', ct', ca')"
    and "ad \<noteq> [] \<longrightarrow> ct = segment_end (last ad)"
    and "\<forall>u \<in> set (tl ad). segment_end u + 1 / 2 \<le> m"
  shows "(ad' \<noteq> [] \<longrightarrow> ct' = segment_end (last ad')) \<and>
         (\<forall>u \<in> set (tl ad'). segment_end u + 1 / 2 \<le> m) \<and>
         (\<exists>more. ad' = ad @ more)"
  using assms
proof (induction fetch m e ad ct ca rule: accumulate.induct)
  case (1 fetch m e ad ct ca)
  show ?case
  proof (cases "ca \<le> e")
    case False
    with "1.prems"(1) have "ad' = ad" "ct' = ct"
      by (simp_all add: accumulate.simps[of fetch m e ad ct ca])
    with "1.prems"(2,3) show ?thesis by simp
  next
    case True
    show ?thesis
    proof (cases "fetch ca ct")
      case (Inl err)
      with True "1.prems"(1) show ?thesis
        by (simp add: accumulate.simps[of fetch m e ad ct ca])
    next
      case (Inr data)
      show ?thesis
      proof (cases "ad \<noteq> [] \<and> m < segment_end data + 1 / 2")
        case stop: True
        with True Inr "1.prems"(1) have "ad' = ad" "ct' = ct"
          by (simp_all add: accumulate.simps[of fetch m e ad ct ca] Let_def)
        with "1.prems"(2,3) show ?thesis by simp
      next
        case go: False
        with True Inr "1.prems"(1)
        have run: "accumulate fetch m e (ad @ [data]) (segment_end data) (ca + 1) = Inr (ad', ct', ca')"
          by (simp add: accumulate.simps[of fetch m e ad ct ca] Let_def)
        have a: "ad @ [data] \<noteq> [] \<longrightarrow> segment_end data = segment_end (last (ad @ [data]))"
          by simp
        have b: "\<forall>u \<in> set (tl (ad @ [data])). segment_end u + 1 / 2 \<le> m"
          using go "1.prems"(3) by (cases ad) auto
        from "1.IH"[OF True Inr refl go run a b]
        show ?thesis by auto
      qed
    qed
  qed
qed

lemma extend_inv:
  assumes "extend fetch mn m ma ad ct tot ca ea = Inr (ad', tot', ea')"
    and "ad \<noteq> []"
    and "tot = segment_end (last ad) + 1 / 2"
    and "\<forall>u \<in> set (tl ad). segment_end u + 1 / 2 \<le> m"
  shows "ad' \<noteq> [] \<and> tot' = segment_end (last ad') + 1 / 2 \<and>
         (\<forall>u \<in> set (tl ad'). segment_end u + 1 / 2 \<le> m) \<and>
         (\<exists>more. ad' = ad @ more)"
  using assms
proof (induction fetch mn m ma ad ct tot ca ea rule: extend.induct)
  case (1 fetch mn m ma ad ct tot ca ea)
  show ?case
  proof (cases "tot < mn \<and> ca \<le> ma \<and> tot < m")
    case False
    with "1.prems"(1) have "ad' = ad" "tot' = tot"
      by (auto simp add: extend.simps[of fetch mn m ma ad ct tot ca ea])
    with "1.prems"(2,3,4) show ?thesis by simp
  next
    case True
    show ?thesis
    proof (cases "fetch ca ct")
      case (Inl err)
      with True "1.prems"(1) show ?thesis
        by (simp add: extend.simps[of fetch mn m ma ad ct tot ca ea])
    next
      case (Inr data)
      show ?thesis
      proof (cases "m < segment_end data + 1 / 2")
        case stop: True
        with True Inr "1.prems"(1) have "ad' = ad" "tot' = tot"
          by (simp_all add: extend.simps[of fetch mn m ma ad ct tot ca ea] Let_def)
        with "1.prems"(2,3,4) show ?thesis by simp
      next
        case go: False
        with True Inr "1.prems"(1)
        have run: "extend fetch mn m ma (ad @ [data]) (segment_end data)
                     (segment_end data + 1 / 2) (ca + 1) (ca + 1 - 1) = Inr (ad', tot', ea')"
          by (simp add: extend.simps[of fetch mn m ma ad ct tot ca ea] Let_def)
        have a: "ad @ [data] \<noteq> []" by simp
        have b: "segment_end data + 1 / 2 = segment_end (last (ad @ [data])) + 1 / 2" by simp
        have c: "\<forall>u \<in> set (tl (ad @ [data])). segment_end u + 1 / 2 \<le> m"
          using go "1.prems"(2,4) by (cases ad) auto
        from "1.IH"[OF True Inr refl go run a b c]
        show ?thesis by auto
      qed
    qed
  qed
qed

text \<open>
  C2. For every validated verse range and every behaviour of the unit fetch, when the
  sequencing steps of \<^verbatim>\<open>generate_reel\<close> return, the total duration handed to the
  compositor never exceeds \<open>max_content_duration\<close>. The unit list is not empty; every
  unit after the first was appended only with its projected end plus the trailing half
  second within the maximum; and the total duration is the last unit's segment end plus
  the half second, or exactly the maximum when that is larger, with the unit list as it
  was accumulated.
\<close>

theorem reel_duration_bounded:
  assumes "generate_reel_timeline fetch min_duration max_content_duration max_ayah
             start_ayah end_ayah = Inr (units, total_duration, last_ayah)"
  shows "total_duration \<le> max_content_duration \<and> units \<noteq> [] \<and>
         (\<forall>u \<in> set (tl units). segment_end u + 1 / 2 \<le> max_content_duration) \<and>
         total_duration = min max_content_duration (segment_end (last units) + 1 / 2)"
proof -
  from assms obtain ad ct ca where
    acc: "accumulate fetch max_content_duration end_ayah [] (1 / 10) start_ayah = Inr (ad, ct, ca)"
    by (auto simp add: generate_reel_timeline_def split: sum.splits)
  from assms acc have ne: "ad \<noteq> []"
    by (auto simp add: generate_reel_timeline_def Let_def split: if_splits)
  from assms acc ne obtain tot where
    ext: "extend fetch min_duration max_content_duration max_ayah ad ct (ct + 1 / 2) ca
            (ayah (last ad)) = Inr (units, tot, last_ayah)"
    and cap: "total_duration = (if max_content_duration < tot then max_content_duration else tot)"
    by (auto simp add: generate_reel_timeline_def Let_def split: sum.splits)
  from accumulate_inv[OF acc] ne
  have ct: "ct = segment_end (last ad)"
    and tl: "\<forall>u \<in> set (tl ad). segment_end u + 1 / 2 \<le> max_content_duration"
    by simp_all
  from ct have tot0: "ct + 1 / 2 = segment_end (last ad) + 1 / 2" by simp
  from extend_inv[OF ext ne tot0 tl]
  have "units \<noteq> []" and "tot = segment_end (last units) + 1 / 2"
    and "\<forall>u \<in> set (tl units). segment_end u + 1 / 2 \<le> max_content_duration"
    by simp_all
  with cap show ?thesis by (simp add: min_def)
qed

text \<open>
  One unit of 70 seconds is kept and the total is capped at 59 seconds; of three units of
  25 seconds the third is not appended.
\<close>

lemma example_capped:
  "generate_reel_timeline
     (\<lambda>a t. Inr \<lparr>ayah = a, audio_duration = 70, segment_end = t + 70 + 3 / 10\<rparr>) 30 59 7 1 1
   = Inr ([\<lparr>ayah = 1, audio_duration = 70, segment_end = 352 / 5\<rparr>], 59, 1)"
  by (simp add: generate_reel_timeline_def accumulate.simps extend.simps Let_def)

lemma example_stopped:
  "generate_reel_timeline
     (\<lambda>a t. Inr \<lparr>ayah = a, audio_duration = 25, segment_end = t + 25 + 3 / 10\<rparr>) 30 59 7 1 3
   = Inr ([\<lparr>ayah = 1, audio_duration = 25, segment_end = 127 / 5\<rparr>,
           \<lparr>ayah = 2, audio_duration = 25, segment_end = 507 / 10\<rparr>], 256 / 5, 2)"
  by (simp add: generate_reel_timeline_def accumulate.simps extend.simps Let_def)

theorem reel_duration_bounded_witness:
  "(59 :: real) = min 59 (segment_end
      (last [\<lparr>ayah = 1, audio_duration = 70, segment_end = 352 / 5\<rparr>]) + 1 / 2) \<and>
   (256 / 5 :: real) \<le> 59 \<and>
   segment_end \<lparr>ayah = 2, audio_duration = 25, segment_end = 507 / 10\<rparr> + 1 / 2 \<le> (59 :: real)"
  using reel_duration_bounded [OF example_capped] reel_duration_bounded [OF example_stopped]
  by simp

text \<open>
  C9. For every audio path, both audio-duration probes return a number and never raise:
  when opening or reading the file raises an exception, the result is the fallback of
  \<open>5.0\<close> seconds.
\<close>

theorem audio_probe_fallback:
  "(\<exists>d. get_audio_duration_moviepy audio_file_clip audio_path = Inr d) \<and>
   (audio_file_clip audio_path = Inl e \<longrightarrow>
      get_audio_duration_moviepy audio_file_clip audio_path = Inr 5) \<and>
   (\<exists>d. get_audio_duration from_file audio_path = Inr d) \<and>
   (from_file audio_path = Inl e \<longrightarrow> get_audio_duration from_file audio_path = Inr 5)"
  by (auto simp add: get_audio_duration_moviepy_def get_audio_duration_def try_except_def
        split: sum.splits)

theorem audio_probe_fallback_witness:
  "get_audio_duration_moviepy (\<lambda>p. Inl (IOError ''no such file'')) ''001002.mp3'' = Inr 5 \<and>
   get_audio_duration (\<lambda>p. Inl (IOError ''no such file'')) ''001002.mp3'' = Inr 5"
  using audio_probe_fallback [of "\<lambda>p. Inl (IOError ''no such file'')" "''001002.mp3''"
      "IOError ''no such file''" "\<lambda>p. Inl (IOError ''no such file'')"]
  by simp

end
